theory Spec2Isabelle
  imports
    Complex_Main
    "HOL-Library.AList"
    "HOL-Library.Char_ord"
    "HOL-Library.List_Lexorder"
begin

section \<open>Yahtzee (html-experiment/index.js): the scoring calculator\<close>

text \<open>
  The scoring engine of \<^verbatim>\<open>src/html-experiment/index.js\<close>. Numbers are \<open>int\<close>; the
  dice array is an \<open>int list\<close>. The thirteen fixed keys of a scoreboard object and of the
  object returned by \<^verbatim>\<open>calculatePossibleScores\<close> are the constructors of \<open>category\<close>,
  written as in the source.
\<close>

datatype category =
    ones | twos | threes | fours | fives | sixes
  | three_of_a_kind | four_of_a_kind | full_house
  | small_straight | large_straight | yahtzee | chance

subsection \<open>JavaScript helpers the scoring code relies on\<close>

text \<open>
  \<^verbatim>\<open>Array.prototype.sort()\<close> without a comparator orders the elements by their decimal
  string, code unit by code unit (so \<open>10\<close> sorts before \<open>9\<close>), and is stable.
\<close>

definition digit_char :: "nat \<Rightarrow> char" where
  "digit_char d = char_of (48 + d)"

fun digitsOf :: "nat \<Rightarrow> string" where
  "digitsOf n =
     (if n < 10 then [digit_char n] else digitsOf (n div 10) @ [digit_char (n mod 10)])"

definition toString :: "int \<Rightarrow> string" where
  "toString i = (if i < 0 then CHR ''-'' # digitsOf (nat (- i)) else digitsOf (nat i))"

definition js_sort :: "int list \<Rightarrow> int list" where
  "js_sort xs = sort_key toString xs"

text \<open>\<^verbatim>\<open>xs[i]\<close>: \<open>None\<close> stands for \<^verbatim>\<open>undefined\<close>, the value of an out-of-range read.\<close>

definition js_nth :: "'a list \<Rightarrow> nat \<Rightarrow> 'a option" where
  "js_nth xs i = (if i < length xs then Some (xs ! i) else None)"

text \<open>
  \<^verbatim>\<open>counts[v] = (counts[v] || 0) + 1\<close> on the object \<^verbatim>\<open>counts\<close>: an association list
  from die value to count, in order of creation; a new key is appended, an existing one
  updated in place.
\<close>

definition count_value :: "int \<Rightarrow> (int \<times> int) list \<Rightarrow> (int \<times> int) list" where
  "count_value v counts =
     AList.update v ((case map_of counts v of None \<Rightarrow> 0 | Some c \<Rightarrow> c) + 1) counts"

text \<open>
  \<^verbatim>\<open>Object.keys\<close> and \<^verbatim>\<open>Object.values\<close> enumerate the keys that are array indices
  first, in ascending numeric order, and then the other keys in the order in which they
  were created.
\<close>

definition is_array_index :: "int \<Rightarrow> bool" where
  "is_array_index k = (0 \<le> k \<and> k < 4294967295)"

definition Object_entries :: "(int \<times> int) list \<Rightarrow> (int \<times> int) list" where
  "Object_entries obj =
     sort_key fst (filter (\<lambda>entry. is_array_index (fst entry)) obj)
       @ filter (\<lambda>entry. \<not> is_array_index (fst entry)) obj"

definition Object_keys :: "(int \<times> int) list \<Rightarrow> int list" where
  "Object_keys obj = map fst (Object_entries obj)"

definition Object_values :: "(int \<times> int) list \<Rightarrow> int list" where
  "Object_values obj = map snd (Object_entries obj)"

text \<open>\<^verbatim>\<open>[...new Set(vals)]\<close>: the distinct values in order of first occurrence.\<close>

definition Set_add :: "int \<Rightarrow> int list \<Rightarrow> int list" where
  "Set_add v seen = (if v \<in> set seen then seen else seen @ [v])"

definition new_Set :: "int list \<Rightarrow> int list" where
  "new_Set vals = fold Set_add vals []"

subsection \<open>sumIfMatch, sumAll, calculatePossibleScores\<close>

definition sumIfMatch :: "int list \<Rightarrow> int \<Rightarrow> int" where
  "sumIfMatch vals num = foldl (\<lambda>a b. a + b) 0 (filter (\<lambda>v. v = num) vals)"

definition sumAll :: "int list \<Rightarrow> int" where
  "sumAll vals = foldl (\<lambda>a b. a + b) 0 vals"

definition smallStraights :: "int list list" where
  "smallStraights = [[1, 2, 3, 4], [2, 3, 4, 5], [3, 4, 5, 6]]"

definition largeStraights :: "int list list" where
  "largeStraights = [[1, 2, 3, 4, 5], [2, 3, 4, 5, 6]]"

definition calculatePossibleScores :: "int list \<Rightarrow> category \<Rightarrow> int" where
  "calculatePossibleScores vals =
     (let counts = fold count_value vals [];
          has3 = list_ex (\<lambda>c. c \<ge> 3) (Object_values counts);
          has4 = list_ex (\<lambda>c. c \<ge> 4) (Object_values counts);
          countVals = js_sort (Object_values counts);
          isFullHouse = (length (Object_keys counts) = 2
                          \<and> js_nth countVals 0 = Some 2 \<and> js_nth countVals 1 = Some 3);
          uniqueVals = js_sort (new_Set vals);
          hasSmall = list_ex (\<lambda>seq. list_all (\<lambda>x. x \<in> set uniqueVals) seq) smallStraights;
          hasLarge = list_ex (\<lambda>seq. length seq = length uniqueVals
                                      \<and> list_all (\<lambda>x. x \<in> set uniqueVals) seq) largeStraights;
          has5 = list_ex (\<lambda>c. c = 5) (Object_values counts)
      in (\<lambda>cat. case cat of
            ones \<Rightarrow> sumIfMatch vals 1
          | twos \<Rightarrow> sumIfMatch vals 2
          | threes \<Rightarrow> sumIfMatch vals 3
          | fours \<Rightarrow> sumIfMatch vals 4
          | fives \<Rightarrow> sumIfMatch vals 5
          | sixes \<Rightarrow> sumIfMatch vals 6
          | three_of_a_kind \<Rightarrow> (if has3 then sumAll vals else 0)
          | four_of_a_kind \<Rightarrow> (if has4 then sumAll vals else 0)
          | full_house \<Rightarrow> (if isFullHouse then 25 else 0)
          | small_straight \<Rightarrow> (if hasSmall then 30 else 0)
          | large_straight \<Rightarrow> (if hasLarge then 40 else 0)
          | yahtzee \<Rightarrow> (if has5 then 50 else 0)
          | chance \<Rightarrow> sumAll vals))"

text \<open>A roll as the game produces it: five dice, each showing 1 to 6.\<close>

definition five_dice :: "int list \<Rightarrow> bool" where
  "five_dice vals = (length vals = 5 \<and> list_all (\<lambda>v. 1 \<le> v \<and> v \<le> 6) vals)"

section \<open>The face of a rolled die\<close>

text \<open>
  \<^verbatim>\<open>Math.floor(Math.random() * 6) + 1\<close> is computed on IEEE 754 doubles. A finite
  double that is not negative is \<open>mantissa * 2 ^ exponent\<close> with a mantissa below
  \<open>2 ^ 53\<close> and an exponent of at least \<open>-1074\<close>.
\<close>

datatype float64 = Float64 (mantissa: nat) (exponent: int)

definition valueOf :: "float64 \<Rightarrow> real" where
  "valueOf d = real (mantissa d) * 2 powi exponent d"

text \<open>
  The product of two doubles is the exact product rounded to the nearest double, a tie
  going to the even mantissa. For an exact value \<open>n * 2 ^ e\<close>, \<open>excess_bits n\<close> is the
  number of low bits of \<open>n\<close> that do not fit into 53 bits, and \<open>round_half_even n s\<close> is
  \<open>n / 2 ^ s\<close> rounded to the nearest integer. With \<open>e\<close> at least \<open>-1074\<close> the value
  is a double as it is when \<open>n\<close> is below \<open>2 ^ 53\<close>, and is rounded to a normal double
  otherwise; a value below 6 is far from overflow.
\<close>

function excess_bits :: "nat \<Rightarrow> nat" where
  "excess_bits n = (if n < 2 ^ 53 then 0 else 1 + excess_bits (n div 2))"
  by pat_completeness auto
termination
  by (relation "measure (\<lambda>n. n)") auto

declare excess_bits.simps [simp del]

definition round_half_even :: "nat \<Rightarrow> nat \<Rightarrow> nat" where
  "round_half_even n s =
     (let q = n div 2 ^ s; r = n mod 2 ^ s
      in if 2 * r > 2 ^ s \<or> (2 * r = 2 ^ s \<and> odd q) then q + 1 else q)"

definition round_double :: "nat \<Rightarrow> int \<Rightarrow> float64" where
  "round_double n e =
     (let s = excess_bits n; q = round_half_even n s
      in if q = 2 ^ 53 then Float64 (2 ^ 52) (e + int s + 1) else Float64 q (e + int s))"

text \<open>\<^verbatim>\<open>r * 6\<close>: the factor 6 is the double with mantissa 6 and exponent 0.\<close>

definition times6 :: "float64 \<Rightarrow> float64" where
  "times6 r = round_double (mantissa r * 6) (exponent r)"

definition Math_floor :: "float64 \<Rightarrow> int" where
  "Math_floor d = \<lfloor>valueOf d\<rfloor>"

text \<open>
  \<^verbatim>\<open>Math.floor(r * 6) + 1\<close>; the sum is exact, the floor being a small integer.
\<close>

definition rollFace :: "float64 \<Rightarrow> int" where
  "rollFace r = Math_floor (times6 r) + 1"

text \<open>\<^verbatim>\<open>Math.random()\<close> returns a double that is at least 0 and less than 1.\<close>

definition valid_draw :: "float64 \<Rightarrow> bool" where
  "valid_draw r = (mantissa r < 2 ^ 53 \<and> - 1074 \<le> exponent r \<and> valueOf r < 1)"

definition unit_draws :: "(nat \<Rightarrow> float64) \<Rightarrow> bool" where
  "unit_draws rnd = (\<forall>n. valid_draw (rnd n))"

text \<open>
  For worked examples: a generator that returns 0.5 every time, and one that returns
  0, 1/8, 2/8, ..., 7/8 in turn.
\<close>

definition half_draws :: "nat \<Rightarrow> float64" where
  "half_draws n = Float64 1 (- 1)"

definition eighth_draws :: "nat \<Rightarrow> float64" where
  "eighth_draws n = Float64 (n mod 8) (- 3)"

section \<open>Game state\<close>

text \<open>
  The module-level variables of the script, as one record that every operation takes and
  returns. Two fields model what JavaScript keeps out of sight: \<open>random\<close> is the sequence
  of results \<^verbatim>\<open>Math.random()\<close> is going to return, and \<open>awaited\<close> counts the animation
  frames for which the running \<^verbatim>\<open>animateCupShake\<close> has been resumed. The arrays
  \<^verbatim>\<open>diceValues\<close> and \<^verbatim>\<open>diceKept\<close> are only ever assigned five-element literals and
  written at indices below \<^verbatim>\<open>NUM_DICE\<close>.
\<close>

datatype game_mode = promptPlayers | rolling | scoreSelection | gameOver

datatype js_error = TypeError

type_synonym scoreboard = "category \<Rightarrow> int option"

record game =
  DICE_FACE_WIDTH :: real
  DICE_FACE_HEIGHT :: real
  numPlayers :: nat
  scoreboards :: "scoreboard list"
  currentRound :: nat
  currentPlayer :: nat
  diceValues :: "int list"
  diceKept :: "bool list"
  rollsLeft :: int
  turnEnded :: bool
  gameMode :: game_mode
  isAnimating :: bool
  awaited :: nat
  random :: "nat \<Rightarrow> float64"

definition NUM_DICE :: nat where
  "NUM_DICE = 5"

definition MAX_TURNS :: nat where
  "MAX_TURNS = 13"

definition MAX_ROLLS_PER_TURN :: int where
  "MAX_ROLLS_PER_TURN = 2"

definition dicePositions :: "(real \<times> real) list" where
  "dicePositions = [(100, 250), (250, 250), (400, 250), (550, 250), (700, 250)]"

text \<open>The state when the script has been loaded, before any event.\<close>

definition initial :: "(nat \<Rightarrow> float64) \<Rightarrow> game" where
  "initial rnd =
     \<lparr> DICE_FACE_WIDTH = 64, DICE_FACE_HEIGHT = 64,
       numPlayers = 1, scoreboards = [], currentRound = 1, currentPlayer = 0,
       diceValues = [0, 0, 0, 0, 0],
       diceKept = [False, False, False, False, False],
       rollsLeft = MAX_ROLLS_PER_TURN, turnEnded = False,
       gameMode = promptPlayers, isAnimating = False,
       awaited = 0, random = rnd \<rparr>"

text \<open>\<^verbatim>\<open>Math.random()\<close> takes the next result of the generator.\<close>

definition Math_random :: "game \<Rightarrow> float64 \<times> game" where
  "Math_random s = (random s 0, s\<lparr>random := (\<lambda>n. random s (Suc n))\<rparr>)"

subsection \<open>initScoreboards, rollDice, beginPlayerTurn, setNumberOfPlayers\<close>

definition initScoreboards :: "nat \<Rightarrow> scoreboard list" where
  "initScoreboards n = map (\<lambda>i. (\<lambda>cat. None)) [0..<n]"

text \<open>The body of the loop of \<^verbatim>\<open>rollDice\<close> for die \<open>i\<close>, and the loop.\<close>

definition rollDie :: "nat \<Rightarrow> game \<Rightarrow> game" where
  "rollDie i s =
     (if js_nth (diceKept s) i \<noteq> Some True
      then (case Math_random s of
              (r, s') \<Rightarrow> s'\<lparr>diceValues := (diceValues s')[i := rollFace r]\<rparr>)
      else s)"

definition rollDice :: "game \<Rightarrow> game" where
  "rollDice s = fold rollDie [0..<NUM_DICE] s"

definition beginPlayerTurn :: "game \<Rightarrow> game" where
  "beginPlayerTurn s =
     (rollDice (s\<lparr>diceValues := [0, 0, 0, 0, 0],
                  diceKept := [False, False, False, False, False],
                  rollsLeft := MAX_ROLLS_PER_TURN,
                  turnEnded := False\<rparr>))
       \<lparr>gameMode := rolling\<rparr>"

definition setNumberOfPlayers :: "nat \<Rightarrow> game \<Rightarrow> game" where
  "setNumberOfPlayers n s =
     beginPlayerTurn (s\<lparr>numPlayers := n, scoreboards := initScoreboards n,
                        currentRound := 1, currentPlayer := 0\<rparr>)"

text \<open>
  For worked examples: a one-player game and a two-player game right after the player
  count was chosen.
\<close>

definition one_player_game :: game where
  "one_player_game = setNumberOfPlayers 1 (initial half_draws)"

definition two_player_game :: game where
  "two_player_game = setNumberOfPlayers 2 (initial eighth_draws)"

subsection \<open>animateCupShake\<close>

text \<open>
  \<^verbatim>\<open>animateCupShake\<close> runs up to its first \<^verbatim>\<open>await\<close> when it is called; each later
  animation frame resumes it once. It awaits 15 frames moving the dice in and 36 frames
  shaking the cup, calls \<^verbatim>\<open>rollDice\<close>, awaits 15 frames moving the dice out, and clears
  \<^verbatim>\<open>isAnimating\<close>. Positions and scales are drawing state and are left out.
\<close>

definition stepsIn :: nat where
  "stepsIn = 15"

definition shakeFrames :: nat where
  "shakeFrames = 36"

definition stepsOut :: nat where
  "stepsOut = 15"

definition animateCupShake :: "game \<Rightarrow> game" where
  "animateCupShake s =
     (if isAnimating s then s
      else s\<lparr>isAnimating := True, rollsLeft := rollsLeft s - 1, awaited := 0\<rparr>)"

definition animationFrame :: "game \<Rightarrow> game" where
  "animationFrame s =
     (if \<not> isAnimating s then s
      else (let k = awaited s + 1; s1 = s\<lparr>awaited := k\<rparr>
            in if k = stepsIn + shakeFrames then rollDice s1
               else if k = stepsIn + shakeFrames + stepsOut then s1\<lparr>isAnimating := False\<rparr>
               else s1))"

subsection \<open>Input handlers\<close>

text \<open>\<^verbatim>\<open>diceImg.onload\<close>, for a sprite sheet of the given width and height.\<close>

definition diceImg_onload :: "nat \<Rightarrow> nat \<Rightarrow> game \<Rightarrow> game" where
  "diceImg_onload width height s =
     s\<lparr>DICE_FACE_WIDTH := of_int \<lfloor>real width / 6\<rfloor>, DICE_FACE_HEIGHT := real height\<rparr>"

text \<open>The first die whose face contains the pointer, as the \<^verbatim>\<open>mousedown\<close> loop finds it.\<close>

definition hitDie :: "game \<Rightarrow> real \<Rightarrow> real \<Rightarrow> nat option" where
  "hitDie s mouseX mouseY =
     find (\<lambda>i. case dicePositions ! i of
                 (dx, dy) \<Rightarrow> mouseX \<ge> dx \<and> mouseX \<le> dx + DICE_FACE_WIDTH s
                            \<and> mouseY \<ge> dy \<and> mouseY \<le> dy + DICE_FACE_HEIGHT s)
          [0..<NUM_DICE]"

definition mousedown :: "real \<Rightarrow> real \<Rightarrow> game \<Rightarrow> game" where
  "mousedown mouseX mouseY s =
     (if gameMode s = rolling \<and> \<not> isAnimating s
      then (case hitDie s mouseX mouseY of
              None \<Rightarrow> s
            | Some i \<Rightarrow> s\<lparr>diceKept := (diceKept s)[i := \<not> (diceKept s ! i)]\<rparr>)
      else s)"

definition keydown :: "string \<Rightarrow> game \<Rightarrow> game" where
  "keydown e_key s =
     (if gameMode s = rolling \<and> \<not> isAnimating s
      then (if e_key = ''r'' \<or> e_key = ''R''
            then (if rollsLeft s > 0 then animateCupShake s else s)
            else if e_key = ''e'' \<or> e_key = ''E''
            then s\<lparr>turnEnded := True, gameMode := scoreSelection\<rparr>
            else s)
      else s)"

subsection \<open>Score selection\<close>

definition catMap :: "category list" where
  "catMap = [ones, twos, threes, fours, fives, sixes, three_of_a_kind, four_of_a_kind,
             full_house, small_straight, large_straight, yahtzee, chance]"

text \<open>
  The buttons \<^verbatim>\<open>openScoreSelectionOverlay\<close> renders: for every category of the current
  player that is not used, one calling \<^verbatim>\<open>selectScoreCategory(cat, false)\<close> and one calling
  \<^verbatim>\<open>selectScoreCategory(cat, true)\<close>; a used category gets no button.
\<close>

definition overlayButtons :: "scoreboard \<Rightarrow> (category \<times> bool) list" where
  "overlayButtons sb =
     concat (map (\<lambda>cat. if sb cat \<noteq> None then [] else [(cat, False), (cat, True)]) catMap)"

definition openScoreSelectionOverlay :: "game \<Rightarrow> js_error + (category \<times> bool) list" where
  "openScoreSelectionOverlay s =
     (if currentPlayer s < length (scoreboards s)
      then Inr (overlayButtons (scoreboards s ! currentPlayer s))
      else Inl TypeError)"

text \<open>Writing to a scoreboard that does not exist throws.\<close>

definition applyScoreToCategory ::
    "category \<Rightarrow> int list \<Rightarrow> nat \<Rightarrow> bool \<Rightarrow> game \<Rightarrow> js_error + game" where
  "applyScoreToCategory cat vals playerIdx forceZero s =
     (if playerIdx < length (scoreboards s)
      then (let sb = scoreboards s ! playerIdx
            in if forceZero
               then Inr (s\<lparr>scoreboards := (scoreboards s)[playerIdx := sb(cat := Some 0)]\<rparr>)
               else (let possible = calculatePossibleScores vals
                     in Inr (s\<lparr>scoreboards :=
                                (scoreboards s)[playerIdx := sb(cat := Some (possible cat))]\<rparr>)))
      else Inl TypeError)"

definition nextPlayerOrRound :: "game \<Rightarrow> game" where
  "nextPlayerOrRound s =
     (let s1 = s\<lparr>currentPlayer := currentPlayer s + 1\<rparr>;
          s2 = (if currentPlayer s1 \<ge> numPlayers s1
                then s1\<lparr>currentPlayer := 0, currentRound := currentRound s1 + 1\<rparr>
                else s1)
      in if currentRound s2 > MAX_TURNS then s2\<lparr>gameMode := gameOver\<rparr>
         else beginPlayerTurn s2)"

definition selectScoreCategory :: "category \<Rightarrow> bool \<Rightarrow> game \<Rightarrow> js_error + game" where
  "selectScoreCategory cat forceZero s =
     (case applyScoreToCategory cat (diceValues s) (currentPlayer s) forceZero s of
        Inl e \<Rightarrow> Inl e
      | Inr s' \<Rightarrow> Inr (nextPlayerOrRound s'))"

subsection \<open>Final scores and restart\<close>

definition upperKeys :: "category list" where
  "upperKeys = [ones, twos, threes, fours, fives, sixes]"

definition lowerKeys :: "category list" where
  "lowerKeys = [three_of_a_kind, four_of_a_kind, full_house,
                small_straight, large_straight, yahtzee, chance]"

text \<open>\<^verbatim>\<open>if (sb[k] !== null) score += sb[k]\<close>\<close>

definition addIfSet :: "scoreboard \<Rightarrow> category \<Rightarrow> int \<Rightarrow> int" where
  "addIfSet sb k score = (case sb k of None \<Rightarrow> score | Some v \<Rightarrow> score + v)"

definition calculateFinalScore :: "scoreboard \<Rightarrow> int \<times> int \<times> int \<times> int" where
  "calculateFinalScore sb =
     (let upperScore = fold (addIfSet sb) upperKeys 0;
          lowerScore = fold (addIfSet sb) lowerKeys 0;
          bonus = (if upperScore \<ge> 63 then 35 else 0);
          total = upperScore + bonus + lowerScore
      in (upperScore, bonus, lowerScore, total))"

definition restartGame :: "game \<Rightarrow> game" where
  "restartGame s = s\<lparr>gameMode := promptPlayers\<rparr>"

subsection \<open>Events\<close>

text \<open>
  Everything that changes the state above: the dice sprite sheet finishing to load, a key
  press, a mouse press, an animation frame, and the three global functions the overlay
  buttons call. (\<^verbatim>\<open>cupImg.onload\<close> and \<^verbatim>\<open>gameLoop\<close> only draw.) An exception thrown by
  a handler ends the handler; \<^verbatim>\<open>selectScoreCategory\<close> can only throw before it has
  changed anything.
\<close>

datatype event =
    DiceImgLoad nat nat
  | Keydown string
  | Mousedown real real
  | AnimationFrame
  | SetNumberOfPlayers nat
  | SelectScoreCategory category bool
  | RestartGame

fun dispatch :: "event \<Rightarrow> game \<Rightarrow> game" where
  "dispatch (DiceImgLoad width height) s = diceImg_onload width height s"
| "dispatch (Keydown e_key) s = keydown e_key s"
| "dispatch (Mousedown mouseX mouseY) s = mousedown mouseX mouseY s"
| "dispatch AnimationFrame s = animationFrame s"
| "dispatch (SetNumberOfPlayers n) s = setNumberOfPlayers n s"
| "dispatch (SelectScoreCategory cat forceZero) s =
     (case selectScoreCategory cat forceZero s of Inl e \<Rightarrow> s | Inr s' \<Rightarrow> s')"
| "dispatch RestartGame s = restartGame s"

definition run :: "event list \<Rightarrow> game \<Rightarrow> game" where
  "run es s = fold dispatch es s"

text \<open>The events of one game: no new game is started and none is abandoned.\<close>

fun same_game :: "event \<Rightarrow> bool" where
  "same_game (SetNumberOfPlayers n) = False"
| "same_game RestartGame = False"
| "same_game e = True"

fun is_commit :: "event \<Rightarrow> bool" where
  "is_commit (SelectScoreCategory cat forceZero) = True"
| "is_commit e = False"

definition commits :: "event list \<Rightarrow> nat" where
  "commits es = length (filter is_commit es)"

text \<open>
  The events that can occur while the rolling screen is shown: the overlay is hidden
  there, so none of its buttons can be pressed.
\<close>

fun rolling_screen :: "event \<Rightarrow> bool" where
  "rolling_screen (SetNumberOfPlayers n) = False"
| "rolling_screen (SelectScoreCategory cat forceZero) = False"
| "rolling_screen RestartGame = False"
| "rolling_screen e = True"

fun is_frame :: "event \<Rightarrow> bool" where
  "is_frame AnimationFrame = True"
| "is_frame e = False"

definition frames :: "event list \<Rightarrow> nat" where
  "frames es = length (filter is_frame es)"

section \<open>Properties of the scoring calculator\<close>

subsection \<open>Sums\<close>

lemma foldl_plus_sum_list: "foldl (\<lambda>a b. a + b) (z::int) xs = z + sum_list xs"
  by (induction xs arbitrary: z) auto

lemma sumAll_sum_list: "sumAll vals = sum_list vals"
  by (simp add: sumAll_def foldl_plus_sum_list)

lemma sumIfMatch_count: "sumIfMatch vals num = num * int (count_list vals num)"
  unfolding sumIfMatch_def foldl_plus_sum_list
  by (induction vals) (auto simp: algebra_simps)

lemma upper_sum:
  "list_all (\<lambda>v. 1 \<le> v \<and> v \<le> 6) vals \<Longrightarrow>
   sumIfMatch vals 1 + sumIfMatch vals 2 + sumIfMatch vals 3
     + sumIfMatch vals 4 + sumIfMatch vals 5 + sumIfMatch vals 6 = sum_list vals"
proof (induction vals)
  case Nil
  then show ?case by (simp add: sumIfMatch_count)
next
  case (Cons a vals)
  then have "a = 1 \<or> a = 2 \<or> a = 3 \<or> a = 4 \<or> a = 5 \<or> a = 6" by auto
  with Cons show ?case
    by (auto simp: sumIfMatch_count algebra_simps)
qed

text \<open>
  Claim C10. For every roll of five dice, each showing 1 to 6, the six upper-category
  scores that \<^verbatim>\<open>calculatePossibleScores\<close> returns add up to the chance score, which is
  the sum of the five dice.
\<close>

theorem upper_scores_sum_to_chance:
  assumes "five_dice vals"
  shows "calculatePossibleScores vals ones + calculatePossibleScores vals twos
       + calculatePossibleScores vals threes + calculatePossibleScores vals fours
       + calculatePossibleScores vals fives + calculatePossibleScores vals sixes
       = calculatePossibleScores vals chance
     \<and> calculatePossibleScores vals chance = sum_list vals"
  using assms upper_sum [of vals]
  by (simp add: calculatePossibleScores_def Let_def sumAll_sum_list five_dice_def)

theorem upper_scores_sum_to_chance_witness:
  "five_dice [3, 3, 5, 6, 1]
   \<and> calculatePossibleScores [3, 3, 5, 6, 1] ones + calculatePossibleScores [3, 3, 5, 6, 1] twos
       + calculatePossibleScores [3, 3, 5, 6, 1] threes + calculatePossibleScores [3, 3, 5, 6, 1] fours
       + calculatePossibleScores [3, 3, 5, 6, 1] fives + calculatePossibleScores [3, 3, 5, 6, 1] sixes
       = 18"
proof -
  have h: "five_dice [3, 3, 5, 6, 1]" by (simp add: five_dice_def)
  show ?thesis using h upper_scores_sum_to_chance [OF h] by simp
qed

lemma sum_list_nonneg_dice: "list_all (\<lambda>v. 1 \<le> v \<and> v \<le> 6) vals \<Longrightarrow> 0 \<le> sum_list (vals :: int list)"
  by (induction vals) auto

lemma sumIfMatch_nonneg: "0 \<le> num \<Longrightarrow> 0 \<le> sumIfMatch vals num"
  by (simp add: sumIfMatch_count)

text \<open>
  Claim C7. For every roll of five dice, each showing 1 to 6, \<^verbatim>\<open>calculatePossibleScores\<close>
  gives every one of the thirteen categories a score that is not negative, and the
  chance score is the sum of the five dice. (The result has a score for each category by
  its type: the object is built with all thirteen keys on every path.)
\<close>

theorem possible_scores_complete_nonneg:
  assumes "five_dice vals"
  shows "(\<forall>cat. 0 \<le> calculatePossibleScores vals cat)
     \<and> calculatePossibleScores vals chance = sum_list vals"
proof -
  have s: "0 \<le> sum_list vals"
    using assms by (simp add: five_dice_def sum_list_nonneg_dice)
  have "0 \<le> calculatePossibleScores vals cat" for cat
    using s by (cases cat) (simp_all add: calculatePossibleScores_def Let_def sumAll_sum_list sumIfMatch_nonneg)
  then show ?thesis
    by (simp add: calculatePossibleScores_def Let_def sumAll_sum_list)
qed

theorem possible_scores_complete_nonneg_witness:
  "five_dice [1, 2, 3, 4, 6]
   \<and> 0 \<le> calculatePossibleScores [1, 2, 3, 4, 6] large_straight
   \<and> calculatePossibleScores [1, 2, 3, 4, 6] chance = 16"
proof -
  have h: "five_dice [1, 2, 3, 4, 6]" by (simp add: five_dice_def)
  show ?thesis using h possible_scores_complete_nonneg [OF h] by simp
qed

subsection \<open>The distinct values and the straights\<close>

lemma js_sort_set: "set (js_sort xs) = set xs"
  by (simp add: js_sort_def)

lemma js_sort_length: "length (js_sort xs) = length xs"
  by (simp add: js_sort_def)

lemma Set_add_set: "set (Set_add a acc) = insert a (set acc)"
  by (auto simp: Set_add_def)

lemma Set_add_distinct: "distinct acc \<Longrightarrow> distinct (Set_add a acc)"
  by (auto simp: Set_add_def)

lemma new_Set_set: "set (fold Set_add vals acc) = set acc \<union> set vals"
  by (induction vals arbitrary: acc) (simp_all add: Set_add_set)

lemma new_Set_distinct: "distinct acc \<Longrightarrow> distinct (fold Set_add vals acc)"
  by (induction vals arbitrary: acc) (simp_all add: Set_add_distinct)

lemma uniqueVals_set: "set (js_sort (new_Set vals)) = set vals"
  by (simp add: js_sort_set new_Set_def new_Set_set)

lemma uniqueVals_length: "length (js_sort (new_Set vals)) = card (set vals)"
proof -
  have "distinct (new_Set vals)"
    unfolding new_Set_def by (rule new_Set_distinct) simp
  then have "length (new_Set vals) = card (set (new_Set vals))"
    by (simp add: distinct_card)
  then show ?thesis
    by (simp add: js_sort_length new_Set_def new_Set_set)
qed

lemma large_set_eq:
  fixes S :: "int set"
  assumes "finite S"
  shows "(5 = card S \<and> {1, 2, 3, 4, 5} \<subseteq> S) \<longleftrightarrow> S = {1, 2, 3, 4, 5}"
    and "(5 = card S \<and> {2, 3, 4, 5, 6} \<subseteq> S) \<longleftrightarrow> S = {2, 3, 4, 5, 6}"
proof -
  have c1: "card {1, 2, 3, 4, 5 :: int} = 5" by simp
  have c2: "card {2, 3, 4, 5, 6 :: int} = 5" by simp
  show "(5 = card S \<and> {1, 2, 3, 4, 5} \<subseteq> S) \<longleftrightarrow> S = {1, 2, 3, 4, 5}"
    using assms c1 by (metis card_subset_eq subset_refl)
  show "(5 = card S \<and> {2, 3, 4, 5, 6} \<subseteq> S) \<longleftrightarrow> S = {2, 3, 4, 5, 6}"
    using assms c2 by (metis card_subset_eq subset_refl)
qed

lemma hasLarge_iff:
  "list_ex (\<lambda>seq. length seq = length (js_sort (new_Set vals))
                   \<and> list_all (\<lambda>x. x \<in> set (js_sort (new_Set vals))) seq) largeStraights
   \<longleftrightarrow> set vals = {1, 2, 3, 4, 5} \<or> set vals = {2, 3, 4, 5, 6}"
proof -
  have "list_ex (\<lambda>seq. length seq = length (js_sort (new_Set vals))
                   \<and> list_all (\<lambda>x. x \<in> set (js_sort (new_Set vals))) seq) largeStraights
     \<longleftrightarrow> (5 = card (set vals) \<and> {1, 2, 3, 4, 5} \<subseteq> set vals)
       \<or> (5 = card (set vals) \<and> {2, 3, 4, 5, 6} \<subseteq> set vals)"
    by (auto simp: largeStraights_def uniqueVals_set uniqueVals_length)
  then show ?thesis
    by (simp only: large_set_eq [OF finite_set])
qed

lemma hasSmall_iff:
  "list_ex (\<lambda>seq. list_all (\<lambda>x. x \<in> set (js_sort (new_Set vals))) seq) smallStraights
   \<longleftrightarrow> {1, 2, 3, 4} \<subseteq> set vals \<or> {2, 3, 4, 5} \<subseteq> set vals \<or> {3, 4, 5, 6} \<subseteq> set vals"
  by (simp add: smallStraights_def uniqueVals_set)

text \<open>
  Claim C4. For every roll of five dice, each showing 1 to 6, the large straight scores
  40 exactly when the set of distinct values is \<open>{1,2,3,4,5}\<close> or \<open>{2,3,4,5,6}\<close> (equal
  to it, not merely containing it) and 0 otherwise; the small straight scores 30 exactly
  when the distinct values contain \<open>{1,2,3,4}\<close>, \<open>{2,3,4,5}\<close> or \<open>{3,4,5,6}\<close>, and 0
  otherwise.
\<close>

theorem straights_by_distinct_values:
  assumes "five_dice vals"
  shows "calculatePossibleScores vals large_straight =
           (if set vals = {1, 2, 3, 4, 5} \<or> set vals = {2, 3, 4, 5, 6} then 40 else 0)
       \<and> calculatePossibleScores vals small_straight =
           (if {1, 2, 3, 4} \<subseteq> set vals \<or> {2, 3, 4, 5} \<subseteq> set vals \<or> {3, 4, 5, 6} \<subseteq> set vals
            then 30 else 0)"
  unfolding calculatePossibleScores_def Let_def category.case hasLarge_iff hasSmall_iff
  by simp

theorem straights_by_distinct_values_witness:
  "five_dice [2, 3, 4, 5, 6]
   \<and> calculatePossibleScores [2, 3, 4, 5, 6] large_straight = 40
   \<and> calculatePossibleScores [2, 3, 4, 5, 6] small_straight = 30
   \<and> five_dice [1, 2, 3, 4, 6]
   \<and> calculatePossibleScores [1, 2, 3, 4, 6] large_straight = 0
   \<and> calculatePossibleScores [1, 2, 3, 4, 6] small_straight = 30"
proof -
  have h: "five_dice [2, 3, 4, 5, 6]" by (simp add: five_dice_def)
  have g: "five_dice [1, 2, 3, 4, 6]" by (simp add: five_dice_def)
  have "set [1, 2, 3, 4, 6 :: int] \<noteq> {1, 2, 3, 4, 5}"
  proof
    assume eq: "set [1, 2, 3, 4, 6 :: int] = {1, 2, 3, 4, 5}"
    have "(5::int) \<in> {1, 2, 3, 4, 5}" by simp
    then have "(5::int) \<in> set [1, 2, 3, 4, 6]" unfolding eq .
    then show False by simp
  qed
  moreover have "set [1, 2, 3, 4, 6 :: int] \<noteq> {2, 3, 4, 5, 6}"
  proof
    assume eq: "set [1, 2, 3, 4, 6 :: int] = {2, 3, 4, 5, 6}"
    have "(1::int) \<in> set [1, 2, 3, 4, 6]" by simp
    then have "(1::int) \<in> {2, 3, 4, 5, 6}" unfolding eq .
    then show False by simp
  qed
  ultimately show ?thesis
    using h g straights_by_distinct_values [OF h] straights_by_distinct_values [OF g]
    by (simp add: insert_commute)
qed

subsection \<open>The counts object, full house and yahtzee\<close>

lemma map_of_count_value:
  "map_of (count_value a acc) =
     (map_of acc)(a \<mapsto> (case map_of acc a of None \<Rightarrow> 0 | Some c \<Rightarrow> c) + 1)"
  by (simp add: count_value_def update_conv')

lemma counts_map_of:
  "map_of (fold count_value vals acc) v =
     (if v \<in> set vals \<or> map_of acc v \<noteq> None
      then Some ((case map_of acc v of None \<Rightarrow> 0 | Some c \<Rightarrow> c) + int (count_list vals v))
      else None)"
proof (induction vals arbitrary: acc)
  case Nil
  then show ?case by (auto split: option.splits)
next
  case (Cons a vals)
  have "map_of (fold count_value (a # vals) acc) v = map_of (fold count_value vals (count_value a acc)) v"
    by simp
  also have "\<dots> = (if v \<in> set vals \<or> map_of (count_value a acc) v \<noteq> None
      then Some ((case map_of (count_value a acc) v of None \<Rightarrow> 0 | Some c \<Rightarrow> c) + int (count_list vals v))
      else None)"
    by (rule Cons.IH)
  also have "\<dots> = (if v \<in> set (a # vals) \<or> map_of acc v \<noteq> None
      then Some ((case map_of acc v of None \<Rightarrow> 0 | Some c \<Rightarrow> c) + int (count_list (a # vals) v))
      else None)"
    by (auto simp: map_of_count_value split: option.splits)
  finally show ?case .
qed

lemma distinct_count_value:
  "distinct (map fst acc) \<Longrightarrow> distinct (map fst (count_value a acc))"
  by (simp add: count_value_def distinct_update)

lemma counts_distinct:
  "distinct (map fst acc) \<Longrightarrow> distinct (map fst (fold count_value vals acc))"
proof (induction vals arbitrary: acc)
  case Nil
  then show ?case by simp
next
  case (Cons a vals)
  from Cons.prems have "distinct (map fst (count_value a acc))"
    by (rule distinct_count_value)
  then show ?case using Cons.IH by simp
qed

lemma counts_lookup:
  "map_of (fold count_value vals []) v =
     (if v \<in> set vals then Some (int (count_list vals v)) else None)"
  by (simp add: counts_map_of)

lemma counts_set:
  "set (fold count_value vals []) = (\<lambda>v. (v, int (count_list vals v))) ` set vals"
proof -
  have d: "distinct (map fst (fold count_value vals []))"
    by (rule counts_distinct) simp
  show ?thesis
  proof (rule set_eqI)
    fix p :: "int \<times> int"
    obtain k c where p: "p = (k, c)" by (cases p)
    have "(k, c) \<in> set (fold count_value vals []) \<longleftrightarrow> map_of (fold count_value vals []) k = Some c"
      using d by simp
    also have "\<dots> \<longleftrightarrow> (k \<in> set vals \<and> c = int (count_list vals k))"
      by (auto simp: counts_lookup)
    finally show "p \<in> set (fold count_value vals []) \<longleftrightarrow> p \<in> (\<lambda>v. (v, int (count_list vals v))) ` set vals"
      unfolding p by auto
  qed
qed

lemma Object_entries_set: "set (Object_entries obj) = set obj"
  by (auto simp: Object_entries_def)

lemma Object_entries_length: "length (Object_entries obj) = length obj"
  by (simp add: Object_entries_def sum_length_filter_compl)

lemma Object_entries_distinct:
  assumes "distinct (map fst obj)"
  shows "distinct (map fst (Object_entries obj))"
proof -
  from assms have d: "distinct obj" and i: "inj_on fst (set obj)"
    by (simp_all add: distinct_map)
  have "distinct (Object_entries obj)"
    using d by (auto simp: Object_entries_def)
  with i show ?thesis by (simp add: distinct_map Object_entries_set)
qed

lemma counts_entries_set:
  "set (Object_entries (fold count_value vals [])) = (\<lambda>v. (v, int (count_list vals v))) ` set vals"
  by (simp add: Object_entries_set counts_set)

lemma counts_entries_distinct:
  "distinct (map fst (Object_entries (fold count_value vals [])))"
  by (intro Object_entries_distinct counts_distinct) simp

lemma counts_values_set:
  "set (Object_values (fold count_value vals [])) = (\<lambda>v. int (count_list vals v)) ` set vals"
  by (simp add: Object_values_def counts_entries_set image_image)

lemma counts_keys_length:
  "length (Object_keys (fold count_value vals [])) = card (set vals)"
proof -
  have "set (map fst (Object_entries (fold count_value vals []))) = set vals"
    by (simp add: counts_entries_set image_image)
  with counts_entries_distinct [of vals] show ?thesis
    unfolding Object_keys_def by (metis distinct_card)
qed

lemma has_count_iff:
  "list_ex P (Object_values (fold count_value vals [])) \<longleftrightarrow>
     (\<exists>v \<in> set vals. P (int (count_list vals v)))"
  by (simp add: list_ex_iff counts_values_set)

lemma has5_iff:
  "list_ex (\<lambda>c. c = 5) (Object_values (fold count_value vals [])) \<longleftrightarrow>
     (\<exists>v. count_list vals v = 5)"
proof -
  have "(\<exists>v \<in> set vals. int (count_list vals v) = 5) \<longleftrightarrow> (\<exists>v. count_list vals v = 5)"
    by (metis count_list_0_iff of_nat_eq_iff of_nat_numeral zero_neq_numeral)
  then show ?thesis by (simp add: has_count_iff)
qed

lemma sorted_pair_2_3:
  assumes "x = 1 \<or> x = 2 \<or> x = 3 \<or> x = 4"
  shows "(js_nth (js_sort [x, 5 - x]) 0 = Some 2 \<and> js_nth (js_sort [x, 5 - x]) 1 = Some 3)
           \<longleftrightarrow> (x = 2 \<or> x = 3)"
proof -
  have "js_sort [1, 4] = [1, 4]" by code_simp
  moreover have "js_sort [2, 3] = [2, 3]" by code_simp
  moreover have "js_sort [3, 2] = [2, 3]" by code_simp
  moreover have "js_sort [4, 1] = [1, 4]" by code_simp
  ultimately show ?thesis
    using assms by (auto simp: js_nth_def)
qed

lemma two_counts:
  assumes len: "length vals = 5" and two: "length (Object_keys (fold count_value vals [])) = 2"
  shows "\<exists>a b. a \<noteq> b \<and> set vals = {a, b}
           \<and> Object_values (fold count_value vals []) = [int (count_list vals a), int (count_list vals b)]
           \<and> count_list vals a + count_list vals b = 5
           \<and> 0 < count_list vals a \<and> 0 < count_list vals b"
proof -
  let ?cs = "Object_entries (fold count_value vals [])"
  have d: "distinct (map fst ?cs)" by (rule counts_entries_distinct)
  from two obtain p q where cs: "?cs = [p, q]"
    unfolding Object_keys_def length_map
    by (metis (no_types, opaque_lifting) One_nat_def Suc_1 length_0_conv length_Suc_conv)
  from d cs have ne: "fst p \<noteq> fst q" by simp
  have "set ?cs = (\<lambda>v. (v, int (count_list vals v))) ` set vals" by (rule counts_entries_set)
  with cs have pq: "{p, q} = (\<lambda>v. (v, int (count_list vals v))) ` set vals" by simp
  then have sv: "set vals = {fst p, fst q}"
  proof -
    have "fst ` {p, q} = set vals" unfolding pq by (simp add: image_image)
    then show ?thesis by auto
  qed
  have sp: "snd p = int (count_list vals (fst p))" and sq: "snd q = int (count_list vals (fst q))"
    using pq by (metis (no_types, lifting) imageE insertI1 insert_commute prod.sel)+
  have "sum (count_list vals) (set vals) = length vals"
    by (rule sum_count_set) simp_all
  with sv ne len have s5: "count_list vals (fst p) + count_list vals (fst q) = 5" by simp
  have pos: "0 < count_list vals (fst p)" "0 < count_list vals (fst q)"
  proof -
    have "fst p \<in> set vals" "fst q \<in> set vals" using sv by simp_all
    then have "count_list vals (fst p) \<noteq> 0" "count_list vals (fst q) \<noteq> 0"
      by (simp_all add: count_list_0_iff)
    then show "0 < count_list vals (fst p)" "0 < count_list vals (fst q)" by simp_all
  qed
  have "Object_values (fold count_value vals []) =
          [int (count_list vals (fst p)), int (count_list vals (fst q))]"
    using cs sp sq by (simp add: Object_values_def)
  with ne sv s5 pos show ?thesis by blast
qed

lemma isFullHouse_iff:
  assumes len: "length vals = 5"
  shows "(length (Object_keys (fold count_value vals [])) = 2
            \<and> js_nth (js_sort (Object_values (fold count_value vals []))) 0 = Some 2
            \<and> js_nth (js_sort (Object_values (fold count_value vals []))) 1 = Some 3)
         \<longleftrightarrow> (card (set vals) = 2 \<and> count_list vals ` set vals = {2, 3})"
proof (cases "length (Object_keys (fold count_value vals [])) = 2")
  case False
  then show ?thesis by (simp add: counts_keys_length)
next
  case True
  from two_counts [OF len True] obtain a b where ab: "a \<noteq> b" "set vals = {a, b}"
    and ov: "Object_values (fold count_value vals []) = [int (count_list vals a), int (count_list vals b)]"
    and s5: "count_list vals a + count_list vals b = 5"
    and pos: "0 < count_list vals a" "0 < count_list vals b"
    by blast
  define x where "x = int (count_list vals a)"
  have xb: "int (count_list vals b) = 5 - x" using s5 unfolding x_def by linarith
  have xr: "x = 1 \<or> x = 2 \<or> x = 3 \<or> x = 4" using s5 pos unfolding x_def by linarith
  have img: "count_list vals ` set vals = {2, 3} \<longleftrightarrow> (x = 2 \<or> x = 3)"
  proof -
    have "count_list vals ` set vals = {count_list vals a, count_list vals b}"
      using ab by simp
    moreover have "{count_list vals a, count_list vals b} = {2, 3} \<longleftrightarrow> (x = 2 \<or> x = 3)"
      using s5 unfolding x_def by (auto simp: doubleton_eq_iff)
    ultimately show ?thesis by simp
  qed
  have "card (set vals) = 2" using True by (simp add: counts_keys_length)
  then show ?thesis
    using True sorted_pair_2_3 [OF xr] img
    by (simp add: ov x_def [symmetric] xb)
qed

text \<open>
  Claim C3. For every roll of five dice, each showing 1 to 6, the full house scores 25
  exactly when the roll has two distinct values whose multiplicities are 2 and 3, and 0
  otherwise; yahtzee scores 50 exactly when some value occurs five times, and 0
  otherwise. In particular five equal dice score 0 as a full house and 50 as a yahtzee.
\<close>

theorem full_house_and_yahtzee:
  assumes "five_dice vals"
  shows "calculatePossibleScores vals full_house =
           (if card (set vals) = 2 \<and> count_list vals ` set vals = {2, 3} then 25 else 0)
       \<and> calculatePossibleScores vals yahtzee =
           (if \<exists>v. count_list vals v = 5 then 50 else 0)
       \<and> (\<forall>v. vals = replicate 5 v \<longrightarrow>
             calculatePossibleScores vals full_house = 0
           \<and> calculatePossibleScores vals yahtzee = 50)"
proof -
  have len: "length vals = 5" using assms by (simp add: five_dice_def)
  have fh: "calculatePossibleScores vals full_house =
           (if card (set vals) = 2 \<and> count_list vals ` set vals = {2, 3} then 25 else 0)"
    unfolding calculatePossibleScores_def Let_def category.case isFullHouse_iff [OF len] ..
  have yz: "calculatePossibleScores vals yahtzee =
           (if \<exists>v. count_list vals v = 5 then 50 else 0)"
    unfolding calculatePossibleScores_def Let_def category.case has5_iff ..
  have same: "calculatePossibleScores vals full_house = 0
           \<and> calculatePossibleScores vals yahtzee = 50" if v: "vals = replicate 5 v" for v
  proof -
    have "set vals = {v}" using v by simp
    then have "card (set vals) \<noteq> 2" by simp
    moreover have "count_list vals v = 5" unfolding v by code_simp
    ultimately show ?thesis unfolding fh yz by auto
  qed
  from fh yz same show ?thesis by blast
qed

theorem full_house_and_yahtzee_witness:
  "five_dice [2, 2, 3, 3, 3]
   \<and> calculatePossibleScores [2, 2, 3, 3, 3] full_house = 25
   \<and> calculatePossibleScores [2, 2, 3, 3, 3] yahtzee = 0
   \<and> five_dice [1, 1, 1, 1, 1]
   \<and> calculatePossibleScores [1, 1, 1, 1, 1] full_house = 0
   \<and> calculatePossibleScores [1, 1, 1, 1, 1] yahtzee = 50"
proof -
  have h: "five_dice [2, 2, 3, 3, 3]" by (simp add: five_dice_def)
  have g: "five_dice [1, 1, 1, 1, 1]" by (simp add: five_dice_def)
  have r: "[1, 1, 1, 1, 1] = replicate 5 (1::int)" by (simp add: numeral_eq_Suc)
  have c: "card (set [2, 2, 3, 3, 3 :: int]) = 2" by simp
  have i: "count_list [2, 2, 3, 3, 3 :: int] ` set [2, 2, 3, 3, 3] = {2, 3}"
    by (simp add: numeral_eq_Suc insert_commute)
  have n: "\<not> (\<exists>v. count_list [2, 2, 3, 3, 3 :: int] v = 5)" by simp
  from full_house_and_yahtzee [OF g] r
  have "calculatePossibleScores [1, 1, 1, 1, 1] full_house = 0
      \<and> calculatePossibleScores [1, 1, 1, 1, 1] yahtzee = 50" by blast
  moreover from full_house_and_yahtzee [OF h] c i n
  have "calculatePossibleScores [2, 2, 3, 3, 3] full_house = 25
      \<and> calculatePossibleScores [2, 2, 3, 3, 3] yahtzee = 0" by simp
  ultimately show ?thesis using h g by simp
qed

section \<open>Properties of the final score\<close>

lemma fold_addIfSet:
  "fold (addIfSet sb) ks acc = acc + (\<Sum>k\<leftarrow>ks. case sb k of None \<Rightarrow> 0 | Some v \<Rightarrow> v)"
  by (induction ks arbitrary: acc) (simp_all add: addIfSet_def split: option.splits)

text \<open>
  Claim C6. For every scoreboard, \<^verbatim>\<open>calculateFinalScore\<close> returns the upper subtotal,
  the bonus, the lower subtotal and the total, where the upper subtotal adds the entries
  that are set among the six upper categories, the bonus is 35 if the upper subtotal is
  at least 63 and 0 otherwise, the lower subtotal adds the entries that are set among the
  seven lower categories, the total is the sum of the three, and a category that is not
  set counts as 0.
\<close>

theorem final_score_parts:
  assumes "calculateFinalScore sb = (upperSubtotal, bonus, lowerSubtotal, totalScore)"
  shows "upperSubtotal = (\<Sum>k\<leftarrow>[ones, twos, threes, fours, fives, sixes].
                             case sb k of None \<Rightarrow> 0 | Some v \<Rightarrow> v)
       \<and> bonus = (if upperSubtotal \<ge> 63 then 35 else 0)
       \<and> lowerSubtotal = (\<Sum>k\<leftarrow>[three_of_a_kind, four_of_a_kind, full_house, small_straight,
                                 large_straight, yahtzee, chance].
                             case sb k of None \<Rightarrow> 0 | Some v \<Rightarrow> v)
       \<and> totalScore = upperSubtotal + bonus + lowerSubtotal"
  using assms
  unfolding calculateFinalScore_def Let_def fold_addIfSet upperKeys_def lowerKeys_def
  by auto

theorem final_score_parts_witness:
  "calculateFinalScore ((\<lambda>cat. None)(sixes := Some 30, fives := Some 25, fours := Some 12,
                                        twos := Some 0, yahtzee := Some 50, chance := Some 17))
     = (67, 35, 67, 169)"
proof -
  let ?sb = "(\<lambda>cat. None)(sixes := Some 30, fives := Some 25, fours := Some 12,
                           twos := Some 0, yahtzee := Some 50, chance := Some (17::int))"
  obtain u b l t where c: "calculateFinalScore ?sb = (u, b, l, t)"
    by (cases "calculateFinalScore ?sb") blast
  from final_score_parts [OF c] have "u = 67 \<and> b = 35 \<and> l = 67 \<and> t = 169" by simp
  with c show ?thesis by simp
qed

section \<open>Properties of a turn\<close>

subsection \<open>rollDice\<close>

lemma rollDie_fields [simp]:
  "diceKept (rollDie i s) = diceKept s"
  "rollsLeft (rollDie i s) = rollsLeft s"
  "numPlayers (rollDie i s) = numPlayers s"
  "scoreboards (rollDie i s) = scoreboards s"
  "currentRound (rollDie i s) = currentRound s"
  "currentPlayer (rollDie i s) = currentPlayer s"
  "gameMode (rollDie i s) = gameMode s"
  "isAnimating (rollDie i s) = isAnimating s"
  "turnEnded (rollDie i s) = turnEnded s"
  "awaited (rollDie i s) = awaited s"
  "length (diceValues (rollDie i s)) = length (diceValues s)"
  by (simp_all add: rollDie_def Math_random_def)

lemma rollDie_draws: "unit_draws (random s) \<Longrightarrow> unit_draws (random (rollDie i s))"
  by (simp add: rollDie_def Math_random_def unit_draws_def)

lemma excess_bits_quotient:
  "n div 2 ^ excess_bits n < 2 ^ 53
   \<and> (0 < excess_bits n \<longrightarrow> 2 ^ 52 \<le> n div 2 ^ excess_bits n)"
proof (induction n rule: excess_bits.induct)
  case (1 n)
  show ?case
  proof (cases "n < 2 ^ 53")
    case True
    then show ?thesis by (simp add: excess_bits.simps)
  next
    case False
    then have e: "excess_bits n = Suc (excess_bits (n div 2))"
      by (simp add: excess_bits.simps)
    have q: "n div 2 ^ excess_bits n = (n div 2) div 2 ^ excess_bits (n div 2)"
      unfolding e by (simp add: div_mult2_eq)
    from "1.IH" [OF False] have IH: "n div 2 div 2 ^ excess_bits (n div 2) < 2 ^ 53"
      "0 < excess_bits (n div 2) \<longrightarrow> 2 ^ 52 \<le> n div 2 div 2 ^ excess_bits (n div 2)"
      by simp_all
    have low: "2 ^ 52 \<le> n div 2 div 2 ^ excess_bits (n div 2)"
    proof (cases "0 < excess_bits (n div 2)")
      case True
      with IH show ?thesis by simp
    next
      case False
      then have z: "excess_bits (n div 2) = 0" by simp
      from False have "n div 2 < 2 ^ 53"
        by (metis excess_bits.simps add_is_0 less_numeral_extra(3) zero_less_one not_gr_zero)
      have "(2::nat) ^ 52 \<le> n div 2" using \<open>\<not> n < 2 ^ 53\<close> by simp
      then show ?thesis by (simp add: z)
    qed
    with IH q show ?thesis by simp
  qed
qed

lemma round_half_even_bound:
  "real (round_half_even n s) * 2 ^ s \<le> real n + 2 ^ s / 2
   \<and> (s = 0 \<longrightarrow> round_half_even n s = n)"
proof -
  let ?q = "n div 2 ^ s" and ?r = "n mod 2 ^ s"
  have n: "real n = real ?q * 2 ^ s + real ?r"
    by (metis div_mult_mod_eq of_nat_add of_nat_mult of_nat_numeral of_nat_power)
  show ?thesis
  proof (cases "2 * ?r > 2 ^ s \<or> (2 * ?r = 2 ^ s \<and> odd ?q)")
    case True
    then have up: "round_half_even n s = ?q + 1" by (simp add: round_half_even_def Let_def)
    from True have "(2::nat) ^ s \<le> 2 * ?r" by auto
    then have "(2::real) ^ s \<le> 2 * real ?r"
      by (metis of_nat_le_iff of_nat_mult of_nat_numeral of_nat_power)
    moreover have "s \<noteq> 0"
    proof
      assume "s = 0"
      with True show False by simp
    qed
    ultimately show ?thesis unfolding up n by (simp add: algebra_simps)
  next
    case False
    then have dn: "round_half_even n s = ?q" by (simp add: round_half_even_def Let_def)
    have "s = 0 \<longrightarrow> ?q = n" by simp
    then show ?thesis unfolding dn using n by simp
  qed
qed

lemma round_double_value:
  "valueOf (round_double n e) =
     real (round_half_even n (excess_bits n)) * 2 ^ excess_bits n * 2 powi e"
proof -
  have "(2::real) powi (e + int s) = 2 ^ s * 2 powi e" for s
    by (simp add: power_int_add)
  moreover have "(2::real) ^ 52 * 2 powi (e + int s + 1) = 2 ^ 53 * (2 ^ s * 2 powi e)" for s
    by (simp add: power_int_add)
  ultimately show ?thesis
    by (simp add: round_double_def Let_def valueOf_def)
qed

lemma round_double_error:
  "0 \<le> valueOf (round_double n e)
   \<and> valueOf (round_double n e) \<le> real n * 2 powi e * (1 + 1 / 2 ^ 53)"
proof -
  let ?s = "excess_bits n"
  let ?q = "round_half_even n ?s"
  have pos: "0 \<le> (2::real) powi e" by simp
  have b: "real ?q * 2 ^ ?s \<le> real n * (1 + 1 / 2 ^ 53)"
  proof (cases "?s = 0")
    case True
    with round_half_even_bound [of n ?s] have "?q = n" by simp
    then show ?thesis using True by (simp add: algebra_simps)
  next
    case False
    with excess_bits_quotient [of n] have "2 ^ 52 \<le> n div 2 ^ ?s" by simp
    then have "2 ^ 52 * 2 ^ ?s \<le> n div 2 ^ ?s * 2 ^ ?s" by simp
    also have "\<dots> \<le> n" by (simp add: div_times_less_eq_dividend)
    finally have "real (2 ^ 52 * 2 ^ ?s) \<le> real n" by (simp only: of_nat_le_iff)
    then have "(2::real) ^ ?s / 2 \<le> real n / 2 ^ 53" by simp
    with round_half_even_bound [of n ?s] show ?thesis by (simp add: algebra_simps)
  qed
  have "valueOf (round_double n e) = real ?q * 2 ^ ?s * 2 powi e"
    by (rule round_double_value)
  moreover have "real ?q * 2 ^ ?s * 2 powi e \<le> real n * (1 + 1 / 2 ^ 53) * 2 powi e"
    using b pos by (rule mult_right_mono)
  moreover have "0 \<le> real ?q * 2 ^ ?s * 2 powi e" by simp
  ultimately show ?thesis by (simp add: algebra_simps)
qed

lemma below_one:
  assumes "valid_draw d"
  shows "0 \<le> valueOf d \<and> valueOf d \<le> 1 - 1 / 2 ^ 53"
proof -
  let ?m = "mantissa d" and ?e = "exponent d"
  have m: "?m < 2 ^ 53" and lt: "real ?m * 2 powi ?e < 1"
    using assms by (simp_all add: valid_draw_def valueOf_def)
  have "real ?m * 2 powi ?e \<le> 1 - 1 / 2 ^ 53"
  proof (cases "- 53 \<le> ?e")
    case True
    define k where "k = nat (?e + 53)"
    have e: "?e = int k - 53" using True by (simp add: k_def)
    have p: "(2::real) powi ?e = 2 ^ k / 2 ^ 53"
      unfolding e by (simp add: power_int_diff)
    from lt have "real (?m * 2 ^ k) < 2 ^ 53" unfolding p by (simp add: field_simps)
    then have "?m * 2 ^ k < 2 ^ 53"
      by (metis of_nat_less_iff of_nat_numeral of_nat_power)
    then have "?m * 2 ^ k + 1 \<le> 2 ^ 53" by simp
    then have "real (?m * 2 ^ k + 1) \<le> 2 ^ 53"
      by (metis of_nat_le_iff of_nat_numeral of_nat_power)
    then show ?thesis unfolding p by (simp add: field_simps)
  next
    case False
    then have "?e \<le> - 54" by simp
    then have "(2::real) powi ?e \<le> 2 powi (- 54)"
      by (intro power_int_increasing) simp_all
    moreover have "real ?m \<le> 2 ^ 53" using m
      by (metis less_imp_le of_nat_le_iff of_nat_numeral of_nat_power)
    ultimately have "real ?m * 2 powi ?e \<le> 2 ^ 53 * 2 powi (- 54)"
      by (intro mult_mono) simp_all
    also have "\<dots> \<le> (1::real) - 1 / 2 ^ 53" by (simp add: power_int_minus)
    finally show ?thesis .
  qed
  then show ?thesis by (simp add: valueOf_def)
qed

lemma face_range:
  assumes "valid_draw r"
  shows "1 \<le> rollFace r \<and> rollFace r \<le> 6"
proof -
  let ?x = "valueOf r"
  let ?p = "valueOf (times6 r)"
  have x: "0 \<le> ?x" "?x \<le> 1 - 1 / 2 ^ 53" using below_one [OF assms] by simp_all
  have n: "real (mantissa r * 6) * 2 powi exponent r = 6 * ?x"
    by (simp add: valueOf_def)
  from round_double_error [of "mantissa r * 6" "exponent r"]
  have p: "0 \<le> ?p" "?p \<le> 6 * ?x * (1 + 1 / 2 ^ 53)"
    unfolding times6_def n by simp_all
  have "6 * ?x * (1 + 1 / 2 ^ 53) \<le> 6 * (1 - 1 / 2 ^ 53) * (1 + 1 / 2 ^ 53)"
    using x by (intro mult_right_mono mult_left_mono) simp_all
  also have "\<dots> < 6" by simp
  finally have "?p < 6" using p by simp
  then have "\<lfloor>?p\<rfloor> < 6" by (simp add: floor_less_iff)
  moreover have "0 \<le> \<lfloor>?p\<rfloor>" using p by simp
  ultimately show ?thesis by (simp add: rollFace_def Math_floor_def)
qed

lemma rollDie_nth:
  assumes "unit_draws (random s)" "j < length (diceValues s)"
  shows "diceValues (rollDie i s) ! j =
           (if j = i \<and> js_nth (diceKept s) i \<noteq> Some True
            then rollFace (random s 0) else diceValues s ! j)"
  using assms by (simp add: rollDie_def Math_random_def)

lemma rollDice_loop_fields:
  "diceKept (fold rollDie idxs s) = diceKept s
   \<and> rollsLeft (fold rollDie idxs s) = rollsLeft s
   \<and> numPlayers (fold rollDie idxs s) = numPlayers s
   \<and> scoreboards (fold rollDie idxs s) = scoreboards s
   \<and> currentRound (fold rollDie idxs s) = currentRound s
   \<and> currentPlayer (fold rollDie idxs s) = currentPlayer s
   \<and> gameMode (fold rollDie idxs s) = gameMode s
   \<and> isAnimating (fold rollDie idxs s) = isAnimating s
   \<and> turnEnded (fold rollDie idxs s) = turnEnded s
   \<and> awaited (fold rollDie idxs s) = awaited s
   \<and> length (diceValues (fold rollDie idxs s)) = length (diceValues s)"
  by (induction idxs arbitrary: s) simp_all

lemma rollDice_fields [simp]:
  "diceKept (rollDice s) = diceKept s"
  "rollsLeft (rollDice s) = rollsLeft s"
  "numPlayers (rollDice s) = numPlayers s"
  "scoreboards (rollDice s) = scoreboards s"
  "currentRound (rollDice s) = currentRound s"
  "currentPlayer (rollDice s) = currentPlayer s"
  "gameMode (rollDice s) = gameMode s"
  "isAnimating (rollDice s) = isAnimating s"
  "turnEnded (rollDice s) = turnEnded s"
  "awaited (rollDice s) = awaited s"
  "length (diceValues (rollDice s)) = length (diceValues s)"
  using rollDice_loop_fields [of "[0..<NUM_DICE]" s] by (simp_all add: rollDice_def)

lemma rollDice_loop_draws:
  "unit_draws (random s) \<Longrightarrow> unit_draws (random (fold rollDie idxs s))"
  by (induction idxs arbitrary: s) (simp_all add: rollDie_draws)

lemma rollDice_draws: "unit_draws (random s) \<Longrightarrow> unit_draws (random (rollDice s))"
  by (simp add: rollDice_def rollDice_loop_draws)

lemma rollDice_loop_nth:
  assumes "unit_draws (random s)" "j < length (diceValues s)"
  shows "if j \<in> set idxs \<and> js_nth (diceKept s) j \<noteq> Some True
         then 1 \<le> diceValues (fold rollDie idxs s) ! j \<and> diceValues (fold rollDie idxs s) ! j \<le> 6
         else diceValues (fold rollDie idxs s) ! j = diceValues s ! j"
  using assms
proof (induction idxs arbitrary: s)
  case Nil
  then show ?case by simp
next
  case (Cons i idxs)
  let ?t = "rollDie i s"
  have d: "unit_draws (random ?t)" using Cons.prems(1) by (rule rollDie_draws)
  have l: "j < length (diceValues ?t)" using Cons.prems(2) by simp
  have r0: "valid_draw (random s 0)"
    using Cons.prems(1) by (simp add: unit_draws_def)
  have step: "diceValues ?t ! j =
           (if j = i \<and> js_nth (diceKept s) i \<noteq> Some True
            then rollFace (random s 0) else diceValues s ! j)"
    using Cons.prems by (rule rollDie_nth)
  have face: "1 \<le> rollFace (random s 0) \<and> rollFace (random s 0) \<le> 6"
    using r0 by (rule face_range)
  have IH: "if j \<in> set idxs \<and> js_nth (diceKept s) j \<noteq> Some True
         then 1 \<le> diceValues (fold rollDie idxs ?t) ! j \<and> diceValues (fold rollDie idxs ?t) ! j \<le> 6
         else diceValues (fold rollDie idxs ?t) ! j = diceValues ?t ! j"
    using Cons.IH [OF d l] by simp
  show ?case
  proof (cases "j \<in> set idxs \<and> js_nth (diceKept s) j \<noteq> Some True")
    case True
    with IH show ?thesis by simp
  next
    case False
    with IH have "diceValues (fold rollDie idxs ?t) ! j = diceValues ?t ! j" by simp
    with step face False show ?thesis by (auto split: if_splits)
  qed
qed

lemma rollDice_nth:
  assumes "unit_draws (random s)" "length (diceValues s) = 5" "length (diceKept s) = 5" "j < 5"
  shows "if diceKept s ! j then diceValues (rollDice s) ! j = diceValues s ! j
         else 1 \<le> diceValues (rollDice s) ! j \<and> diceValues (rollDice s) ! j \<le> 6"
proof -
  have "j < length (diceValues s)" using assms by simp
  from rollDice_loop_nth [OF assms(1) this, of "[0..<NUM_DICE]"] assms(3,4)
  show ?thesis
    by (simp add: rollDice_def NUM_DICE_def js_nth_def split: if_splits)
qed

lemma half_draws_unit: "unit_draws half_draws"
  by (simp add: unit_draws_def half_draws_def valid_draw_def valueOf_def)

lemma eighth_draws_valid: "valid_draw (eighth_draws n)"
proof -
  have "n mod 8 < 8" by simp
  then have "real (n mod 8) < 8" by (simp only: of_nat_less_iff [symmetric, where 'a = real] of_nat_numeral)
  then show ?thesis by (simp add: eighth_draws_def valid_draw_def valueOf_def)
qed

lemma eighth_draws_unit: "unit_draws (\<lambda>k. eighth_draws (k + m))"
  by (simp add: unit_draws_def eighth_draws_valid)

lemma rollFace_eval:
  "rollFace (Float64 m e) =
     \<lfloor>valueOf (round_double (m * 6) e)\<rfloor> + 1"
  by (simp add: rollFace_def Math_floor_def times6_def)

lemma eighth_faces:
  "rollFace (eighth_draws 0) = 1" "rollFace (eighth_draws 1) = 1"
  "rollFace (eighth_draws 2) = 2" "rollFace (eighth_draws 3) = 3"
  "rollFace (eighth_draws 4) = 4" "rollFace (eighth_draws 5) = 4"
  "rollFace (eighth_draws 6) = 5" "rollFace (eighth_draws 7) = 6"
  "rollFace (eighth_draws 8) = 1" "rollFace (eighth_draws 9) = 1"
  by (simp_all add: eighth_draws_def rollFace_eval round_double_def round_half_even_def
      excess_bits.simps valueOf_def Let_def)

lemma eighth_faces_Suc:
  "rollFace (eighth_draws (Suc 0)) = 1" "rollFace (eighth_draws (Suc (Suc 0))) = 2"
  using eighth_faces(2,3) by (simp_all add: numeral_2_eq_2)

lemma half_face: "rollFace (half_draws n) = 4"
  by (simp add: half_draws_def rollFace_eval round_double_def round_half_even_def
      excess_bits.simps valueOf_def Let_def)

text \<open>
  A draw at which rounding decides the face: the exact product is below 5, the double
  product is 5.
\<close>

lemma rounded_up_face: "rollFace (Float64 3752999689475413 (- 52)) = 6"
  by (simp add: rollFace_eval round_double_def round_half_even_def
      excess_bits.simps valueOf_def Let_def)

lemma rollDice_loop_exact:
  assumes "n \<le> length (diceValues s)" "length (diceKept s) = length (diceValues s)"
  shows "fold rollDie [0..<n] s =
     s\<lparr>diceValues :=
          map (\<lambda>j. if j < n \<and> \<not> diceKept s ! j
                   then rollFace (random s (length (filter (\<lambda>i. \<not> diceKept s ! i) [0..<j])))
                   else diceValues s ! j) [0..<length (diceValues s)],
        random := (\<lambda>k. random s (k + length (filter (\<lambda>i. \<not> diceKept s ! i) [0..<n])))\<rparr>"
  using assms
proof (induction n)
  case 0
  then show ?case by (simp add: map_nth)
next
  case (Suc n)
  let ?rank = "\<lambda>j. length (filter (\<lambda>i. \<not> diceKept s ! i) [0..<j])"
  let ?f = "\<lambda>m j. if j < m \<and> \<not> diceKept s ! j then rollFace (random s (?rank j))
                   else diceValues s ! j"
  let ?t = "s\<lparr>diceValues := map (?f n) [0..<length (diceValues s)],
               random := (\<lambda>k. random s (k + ?rank n))\<rparr>"
  have n: "n < length (diceValues s)" "n < length (diceKept s)" using Suc.prems by simp_all
  have IH: "fold rollDie [0..<n] s = ?t" using Suc.IH Suc.prems by simp
  have fold: "fold rollDie [0..<Suc n] s = rollDie n ?t" by (simp add: IH)
  show ?case
  proof (cases "diceKept s ! n")
    case True
    have "map (?f (Suc n)) [0..<length (diceValues s)] = map (?f n) [0..<length (diceValues s)]"
      using True by (auto simp: less_Suc_eq)
    moreover have "?rank (Suc n) = ?rank n" using True by simp
    moreover have "rollDie n ?t = ?t" using True n by (simp add: rollDie_def js_nth_def)
    ultimately show ?thesis unfolding fold by simp
  next
    case False
    have m: "(map (?f n) [0..<length (diceValues s)])[n := rollFace (random s (?rank n))]
           = map (?f (Suc n)) [0..<length (diceValues s)]"
    proof (rule nth_equalityI)
      show "length ((map (?f n) [0..<length (diceValues s)])[n := rollFace (random s (?rank n))])
          = length (map (?f (Suc n)) [0..<length (diceValues s)])"
        by simp
    next
      fix j
      assume "j < length ((map (?f n) [0..<length (diceValues s)])[n := rollFace (random s (?rank n))])"
      then have j: "j < length (diceValues s)" by simp
      show "(map (?f n) [0..<length (diceValues s)])[n := rollFace (random s (?rank n))] ! j
          = map (?f (Suc n)) [0..<length (diceValues s)] ! j"
      proof (cases "j = n")
        case True
        with False n show ?thesis by simp
      next
        case ne: False
        then have "(j < Suc n) = (j < n)" by auto
        with ne j show ?thesis by (simp del: upt_Suc)
      qed
    qed
    have r: "?rank (Suc n) = Suc (?rank n)" using False by simp
    have "rollDie n ?t =
        s\<lparr>diceValues := (map (?f n) [0..<length (diceValues s)])[n := rollFace (random s (?rank n))],
          random := (\<lambda>k. random s (Suc k + ?rank n))\<rparr>"
      using False n by (simp add: rollDie_def js_nth_def Math_random_def)
    then show ?thesis unfolding fold m r by simp
  qed
qed

lemma rollDice_exact:
  assumes "length (diceValues s) = 5" "length (diceKept s) = 5"
  shows "rollDice s =
     s\<lparr>diceValues :=
          map (\<lambda>j. if diceKept s ! j then diceValues s ! j
                   else rollFace (random s (length (filter (\<lambda>i. \<not> diceKept s ! i) [0..<j]))))
              [0..<5],
        random := (\<lambda>k. random s (k + length (filter (\<lambda>i. \<not> diceKept s ! i) [0..<5])))\<rparr>"
proof -
  have "map (\<lambda>j. if j < 5 \<and> \<not> diceKept s ! j
                   then rollFace (random s (length (filter (\<lambda>i. \<not> diceKept s ! i) [0..<j])))
                   else diceValues s ! j) [0..<5]
      = map (\<lambda>j. if diceKept s ! j then diceValues s ! j
                   else rollFace (random s (length (filter (\<lambda>i. \<not> diceKept s ! i) [0..<j]))))
              [0..<5]"
    by (rule map_cong) auto
  with rollDice_loop_exact [of 5 s] assms show ?thesis
    by (simp add: rollDice_def NUM_DICE_def)
qed

text \<open>
  Claim C9. For every five dice and five kept flags, and every generator whose results
  are doubles in \<open>[0, 1)\<close>, \<^verbatim>\<open>rollDice\<close> changes nothing of the state but the values of
  the dice that are not kept and the position of the generator. The kept flags and the
  values of the kept dice are as before. The dice that are not kept, in the order of
  their indices, take the faces \<^verbatim>\<open>Math.floor(r * 6) + 1\<close> of the next results \<open>r\<close> of
  \<^verbatim>\<open>Math.random()\<close>, one result for each die and whatever the die showed before, and
  each of these faces is from 1 to 6.
\<close>

theorem reroll_frame:
  assumes "unit_draws (random s)" "length (diceValues s) = 5" "length (diceKept s) = 5"
  shows "rollDice s =
           s\<lparr>diceValues :=
                map (\<lambda>j. if diceKept s ! j then diceValues s ! j
                         else rollFace (random s
                                (length (filter (\<lambda>i. \<not> diceKept s ! i) [0..<j]))))
                    [0..<5],
              random :=
                (\<lambda>k. random s (k + length (filter (\<lambda>i. \<not> diceKept s ! i) [0..<5])))\<rparr>
       \<and> diceKept (rollDice s) = diceKept s
       \<and> length (diceValues (rollDice s)) = 5
       \<and> (\<forall>j < 5. if diceKept s ! j
                   then diceValues (rollDice s) ! j = diceValues s ! j
                   else diceValues (rollDice s) ! j =
                          rollFace (random s (length (filter (\<lambda>i. \<not> diceKept s ! i) [0..<j])))
                      \<and> 1 \<le> diceValues (rollDice s) ! j \<and> diceValues (rollDice s) ! j \<le> 6)"
proof -
  note ex = rollDice_exact [OF assms(2,3)]
  have v: "diceValues (rollDice s) ! j =
             (if diceKept s ! j then diceValues s ! j
              else rollFace (random s (length (filter (\<lambda>i. \<not> diceKept s ! i) [0..<j]))))"
    if "j < 5" for j
  proof -
    have "diceValues (rollDice s) =
            map (\<lambda>j. if diceKept s ! j then diceValues s ! j
                     else rollFace (random s
                            (length (filter (\<lambda>i. \<not> diceKept s ! i) [0..<j]))))
                [0..<5]"
      by (subst ex) simp
    then show ?thesis using that by (simp del: upt_Suc)
  qed
  have "if diceKept s ! j
        then diceValues (rollDice s) ! j = diceValues s ! j
        else diceValues (rollDice s) ! j =
               rollFace (random s (length (filter (\<lambda>i. \<not> diceKept s ! i) [0..<j])))
           \<and> 1 \<le> diceValues (rollDice s) ! j \<and> diceValues (rollDice s) ! j \<le> 6"
    if "j < 5" for j
    using v [OF that] rollDice_nth [OF assms that] by (simp split: if_splits)
  then have r: "\<forall>j < 5. if diceKept s ! j
        then diceValues (rollDice s) ! j = diceValues s ! j
        else diceValues (rollDice s) ! j =
               rollFace (random s (length (filter (\<lambda>i. \<not> diceKept s ! i) [0..<j])))
           \<and> 1 \<le> diceValues (rollDice s) ! j \<and> diceValues (rollDice s) ! j \<le> 6"
    by blast
  have k: "diceKept (rollDice s) = diceKept s" by simp
  have l: "length (diceValues (rollDice s)) = 5" using assms(2) by simp
  from ex k l r show ?thesis by (intro conjI)
qed

subsection \<open>The start of a turn\<close>

lemma beginPlayerTurn_fields [simp]:
  "diceKept (beginPlayerTurn s) = [False, False, False, False, False]"
  "rollsLeft (beginPlayerTurn s) = 2"
  "turnEnded (beginPlayerTurn s) = False"
  "gameMode (beginPlayerTurn s) = rolling"
  "numPlayers (beginPlayerTurn s) = numPlayers s"
  "scoreboards (beginPlayerTurn s) = scoreboards s"
  "currentRound (beginPlayerTurn s) = currentRound s"
  "currentPlayer (beginPlayerTurn s) = currentPlayer s"
  "isAnimating (beginPlayerTurn s) = isAnimating s"
  "awaited (beginPlayerTurn s) = awaited s"
  "length (diceValues (beginPlayerTurn s)) = 5"
  by (simp_all add: beginPlayerTurn_def MAX_ROLLS_PER_TURN_def)

lemma beginPlayerTurn_draws:
  "unit_draws (random s) \<Longrightarrow> unit_draws (random (beginPlayerTurn s))"
  by (simp add: beginPlayerTurn_def rollDice_draws)

lemma beginPlayerTurn_dice:
  assumes "unit_draws (random s)"
  shows "five_dice (diceValues (beginPlayerTurn s))"
proof -
  let ?s0 = "s\<lparr>diceValues := [0, 0, 0, 0, 0],
                diceKept := [False, False, False, False, False],
                rollsLeft := MAX_ROLLS_PER_TURN, turnEnded := False\<rparr>"
  have d: "unit_draws (random ?s0)" using assms by simp
  have r: "1 \<le> diceValues (rollDice ?s0) ! j \<and> diceValues (rollDice ?s0) ! j \<le> 6" if "j < 5" for j
  proof -
    have "\<not> diceKept ?s0 ! j" using that by (simp add: nth_Cons split: nat.splits)
    with rollDice_nth [OF d _ _ that] show ?thesis by simp
  qed
  have "diceValues (beginPlayerTurn s) = diceValues (rollDice ?s0)"
    by (simp add: beginPlayerTurn_def)
  moreover have "length (diceValues (rollDice ?s0)) = 5" by simp
  ultimately show ?thesis
    using r by (simp add: five_dice_def list_all_length)
qed

lemma nextPlayerOrRound_cases:
  "nextPlayerOrRound s =
     (let p = (if currentPlayer s + 1 \<ge> numPlayers s then 0 else currentPlayer s + 1);
          r = (if currentPlayer s + 1 \<ge> numPlayers s then currentRound s + 1 else currentRound s)
      in if r > 13 then s\<lparr>currentPlayer := p, currentRound := r, gameMode := gameOver\<rparr>
         else beginPlayerTurn (s\<lparr>currentPlayer := p, currentRound := r\<rparr>))"
  by (simp add: nextPlayerOrRound_def Let_def MAX_TURNS_def)

lemma beginPlayerTurn_exact:
  "beginPlayerTurn s =
     s\<lparr>diceValues := [rollFace (random s 0), rollFace (random s 1), rollFace (random s 2),
                       rollFace (random s 3), rollFace (random s 4)],
        diceKept := [False, False, False, False, False],
        rollsLeft := 2, turnEnded := False, gameMode := rolling,
        random := (\<lambda>k. random s (k + 5))\<rparr>"
proof -
  let ?s0 = "s\<lparr>diceValues := [0, 0, 0, 0, 0],
                diceKept := [False, False, False, False, False],
                rollsLeft := MAX_ROLLS_PER_TURN, turnEnded := False\<rparr>"
  have f: "[0..<5] = [0, 1, 2, 3, 4]" "[0..<4] = [0, 1, 2, 3]" "[0..<3] = [0, 1, 2]"
    "[0..<2] = [0, 1]" "[0..<1] = [0]"
    by (simp_all add: upt_rec)
  have "rollDice ?s0 =
      ?s0\<lparr>diceValues :=
            map (\<lambda>j. if diceKept ?s0 ! j then diceValues ?s0 ! j
                     else rollFace (random ?s0
                            (length (filter (\<lambda>i. \<not> diceKept ?s0 ! i) [0..<j]))))
                [0..<5],
          random :=
            (\<lambda>k. random ?s0 (k + length (filter (\<lambda>i. \<not> diceKept ?s0 ! i) [0..<5])))\<rparr>"
    by (rule rollDice_exact) simp_all
  then show ?thesis
    by (simp add: beginPlayerTurn_def f MAX_ROLLS_PER_TURN_def eval_nat_numeral)
qed

text \<open>
  Claim C8. At the start of every turn, both when the number of players has been chosen
  and after every advance that does not end the game, all five kept flags are cleared,
  the rolls left are 2, and the first roll has been made at once without taking one of
  them: the five dice show, in the order of their indices, the faces
  \<^verbatim>\<open>Math.floor(r * 6) + 1\<close> of the next five results \<open>r\<close> of \<^verbatim>\<open>Math.random()\<close>, exactly
  five results have been used, and each die shows a value from 1 to 6.
\<close>

theorem turn_start:
  assumes "unit_draws (random s)"
  shows "diceKept (setNumberOfPlayers n s) = [False, False, False, False, False]
       \<and> rollsLeft (setNumberOfPlayers n s) = 2
       \<and> diceValues (setNumberOfPlayers n s) =
           [rollFace (random s 0), rollFace (random s 1), rollFace (random s 2),
            rollFace (random s 3), rollFace (random s 4)]
       \<and> random (setNumberOfPlayers n s) = (\<lambda>k. random s (k + 5))
       \<and> five_dice (diceValues (setNumberOfPlayers n s))
       \<and> gameMode (setNumberOfPlayers n s) = rolling
       \<and> (gameMode (nextPlayerOrRound s) \<noteq> gameOver \<longleftrightarrow>
            (if numPlayers s \<le> currentPlayer s + 1 then currentRound s + 1
             else currentRound s) \<le> 13)
       \<and> (gameMode (nextPlayerOrRound s) \<noteq> gameOver \<longrightarrow>
            diceKept (nextPlayerOrRound s) = [False, False, False, False, False]
          \<and> rollsLeft (nextPlayerOrRound s) = 2
          \<and> diceValues (nextPlayerOrRound s) =
              [rollFace (random s 0), rollFace (random s 1), rollFace (random s 2),
               rollFace (random s 3), rollFace (random s 4)]
          \<and> random (nextPlayerOrRound s) = (\<lambda>k. random s (k + 5))
          \<and> five_dice (diceValues (nextPlayerOrRound s))
          \<and> gameMode (nextPlayerOrRound s) = rolling)"
proof -
  have a: "five_dice (diceValues (setNumberOfPlayers n s))"
    unfolding setNumberOfPlayers_def using assms by (intro beginPlayerTurn_dice) simp
  have a': "diceValues (setNumberOfPlayers n s) =
           [rollFace (random s 0), rollFace (random s 1), rollFace (random s 2),
            rollFace (random s 3), rollFace (random s 4)]
       \<and> random (setNumberOfPlayers n s) = (\<lambda>k. random s (k + 5))"
    unfolding setNumberOfPlayers_def by (subst (1 2) beginPlayerTurn_exact) simp
  let ?p = "if currentPlayer s + 1 \<ge> numPlayers s then 0 else currentPlayer s + 1"
  let ?r = "if currentPlayer s + 1 \<ge> numPlayers s then currentRound s + 1 else currentRound s"
  have nxt: "nextPlayerOrRound s = beginPlayerTurn (s\<lparr>currentPlayer := ?p, currentRound := ?r\<rparr>)"
    if "gameMode (nextPlayerOrRound s) \<noteq> gameOver"
    using that unfolding nextPlayerOrRound_cases Let_def by (simp split: if_splits)
  have b: "five_dice (diceValues (nextPlayerOrRound s))" if "gameMode (nextPlayerOrRound s) \<noteq> gameOver"
    unfolding nxt [OF that] using assms by (intro beginPlayerTurn_dice) simp
  have b': "diceValues (nextPlayerOrRound s) =
              [rollFace (random s 0), rollFace (random s 1), rollFace (random s 2),
               rollFace (random s 3), rollFace (random s 4)]
          \<and> random (nextPlayerOrRound s) = (\<lambda>k. random s (k + 5))"
    if "gameMode (nextPlayerOrRound s) \<noteq> gameOver"
    unfolding nxt [OF that] by (subst (1 2) beginPlayerTurn_exact) simp
  have c: "diceKept (nextPlayerOrRound s) = [False, False, False, False, False]
          \<and> rollsLeft (nextPlayerOrRound s) = 2 \<and> gameMode (nextPlayerOrRound s) = rolling"
    if "gameMode (nextPlayerOrRound s) \<noteq> gameOver"
    using that unfolding nextPlayerOrRound_cases Let_def by (simp split: if_splits)
  have d: "gameMode (nextPlayerOrRound s) \<noteq> gameOver \<longleftrightarrow>
            (if numPlayers s \<le> currentPlayer s + 1 then currentRound s + 1
             else currentRound s) \<le> 13"
    unfolding nextPlayerOrRound_cases Let_def by (simp add: not_less)
  have e: "diceKept (setNumberOfPlayers n s) = [False, False, False, False, False]
       \<and> rollsLeft (setNumberOfPlayers n s) = 2 \<and> gameMode (setNumberOfPlayers n s) = rolling"
    by (simp add: setNumberOfPlayers_def)
  from a a' b b' c d e show ?thesis by blast
qed

text \<open>
  The two-player example: the first turn shows 1, 1, 2, 3, 4; the advance to the second
  player rolls 4, 5, 6, 1, 1.
\<close>

theorem turn_start_witness:
  "unit_draws (random (initial eighth_draws))
   \<and> diceValues two_player_game = [1, 1, 2, 3, 4]
   \<and> rollsLeft two_player_game = 2
   \<and> unit_draws (random two_player_game)
   \<and> gameMode (nextPlayerOrRound two_player_game) \<noteq> gameOver
   \<and> currentPlayer (nextPlayerOrRound two_player_game) = 1
   \<and> diceValues (nextPlayerOrRound two_player_game) = [4, 5, 6, 1, 1]
   \<and> diceKept (nextPlayerOrRound two_player_game) = [False, False, False, False, False]
   \<and> rollsLeft (nextPlayerOrRound two_player_game) = 2"
proof -
  have u: "unit_draws (random (initial eighth_draws))"
    by (simp add: initial_def unit_draws_def eighth_draws_valid)
  from turn_start [OF u, of 2]
  have t: "diceValues two_player_game =
             [rollFace (random (initial eighth_draws) 0), rollFace (random (initial eighth_draws) 1),
              rollFace (random (initial eighth_draws) 2), rollFace (random (initial eighth_draws) 3),
              rollFace (random (initial eighth_draws) 4)]"
    "random two_player_game = (\<lambda>k. random (initial eighth_draws) (k + 5))"
    "rollsLeft two_player_game = 2"
    unfolding two_player_game_def by blast+
  have r: "random two_player_game = (\<lambda>k. eighth_draws (k + 5))"
    using t(2) by (simp add: initial_def)
  have v: "unit_draws (random two_player_game)"
    unfolding r by (rule eighth_draws_unit)
  have g: "gameMode (nextPlayerOrRound two_player_game) \<noteq> gameOver"
      "currentPlayer (nextPlayerOrRound two_player_game) = 1"
    by (simp_all add: nextPlayerOrRound_cases two_player_game_def setNumberOfPlayers_def)
  from turn_start [OF v, of 2] g(1)
  have n: "diceValues (nextPlayerOrRound two_player_game) =
             [rollFace (random two_player_game 0), rollFace (random two_player_game 1),
              rollFace (random two_player_game 2), rollFace (random two_player_game 3),
              rollFace (random two_player_game 4)]"
    "diceKept (nextPlayerOrRound two_player_game) = [False, False, False, False, False]"
    "rollsLeft (nextPlayerOrRound two_player_game) = 2"
    by blast+
  show ?thesis
    using u v g t(3) n(2,3)
    by (simp add: t(1) n(1) r initial_def eighth_faces eighth_faces_Suc)
qed

text \<open>
  The two-player example again: the first player keeps the first and the third die
  (two presses of the mouse on their faces); the roll then replaces the other three by
  the faces of the next three results.
\<close>

lemma two_player_game_fields:
  "diceValues two_player_game = [1, 1, 2, 3, 4]"
  "diceKept two_player_game = [False, False, False, False, False]"
  "random two_player_game = (\<lambda>k. eighth_draws (k + 5))"
  "gameMode two_player_game = rolling" "isAnimating two_player_game = False"
  "DICE_FACE_WIDTH two_player_game = 64" "DICE_FACE_HEIGHT two_player_game = 64"
  unfolding two_player_game_def setNumberOfPlayers_def beginPlayerTurn_exact
  by (simp_all add: initial_def eighth_faces eighth_faces_Suc)

lemma two_kept:
  "mousedown 410 260 (mousedown 110 260 two_player_game)
     = two_player_game\<lparr>diceKept := [True, False, True, False, False]\<rparr>"
proof -
  have f: "[0..<5] = [0, 1, 2, 3, 4]" by (simp add: upt_rec)
  have a: "mousedown 110 260 two_player_game
      = two_player_game\<lparr>diceKept := [True, False, False, False, False]\<rparr>"
    by (simp add: mousedown_def hitDie_def two_player_game_fields NUM_DICE_def f
        dicePositions_def)
  show ?thesis unfolding a
    by (simp add: mousedown_def hitDie_def two_player_game_fields NUM_DICE_def f
        dicePositions_def)
qed

theorem reroll_frame_witness:
  "rollDice (mousedown 410 260 (mousedown 110 260 two_player_game))
     = two_player_game\<lparr>diceValues := [1, 4, 2, 5, 6],
                         diceKept := [True, False, True, False, False],
                         random := (\<lambda>k. eighth_draws (k + 8))\<rparr>"
proof -
  let ?s = "two_player_game\<lparr>diceKept := [True, False, True, False, False]\<rparr>"
  have u: "unit_draws (random ?s)"
    by (simp add: two_player_game_fields eighth_draws_unit)
  have l: "length (diceValues ?s) = 5" "length (diceKept ?s) = 5"
    by (simp_all add: two_player_game_fields)
  have f: "[0..<5] = [0, 1, 2, 3, 4]" "[0..<4] = [0, 1, 2, 3]" "[0..<3] = [0, 1, 2]"
    "[0..<2] = [0, 1]" "[0..<1] = [0]"
    by (simp_all add: upt_rec)
  from reroll_frame [OF u l] have "rollDice ?s =
      ?s\<lparr>diceValues :=
            map (\<lambda>j. if diceKept ?s ! j then diceValues ?s ! j
                     else rollFace (random ?s
                            (length (filter (\<lambda>i. \<not> diceKept ?s ! i) [0..<j]))))
                [0..<5],
          random :=
            (\<lambda>k. random ?s (k + length (filter (\<lambda>i. \<not> diceKept ?s ! i) [0..<5])))\<rparr>"
    by blast
  then have "rollDice ?s = two_player_game\<lparr>diceValues := [1, 4, 2, 5, 6],
                         diceKept := [True, False, True, False, False],
                         random := (\<lambda>k. eighth_draws (k + 8))\<rparr>"
    by (simp add: f two_player_game_fields eighth_faces add.commute)
  then show ?thesis unfolding two_kept .
qed

subsection \<open>Requests to roll again\<close>

lemma animationFrame_fields [simp]:
  "rollsLeft (animationFrame s) = rollsLeft s"
  "numPlayers (animationFrame s) = numPlayers s"
  "scoreboards (animationFrame s) = scoreboards s"
  "currentRound (animationFrame s) = currentRound s"
  "currentPlayer (animationFrame s) = currentPlayer s"
  "gameMode (animationFrame s) = gameMode s"
  "diceKept (animationFrame s) = diceKept s"
  by (simp_all add: animationFrame_def Let_def)

lemma mousedown_fields [simp]:
  "rollsLeft (mousedown x y s) = rollsLeft s"
  "numPlayers (mousedown x y s) = numPlayers s"
  "scoreboards (mousedown x y s) = scoreboards s"
  "currentRound (mousedown x y s) = currentRound s"
  "currentPlayer (mousedown x y s) = currentPlayer s"
  "gameMode (mousedown x y s) = gameMode s"
  "diceValues (mousedown x y s) = diceValues s"
  by (simp_all add: mousedown_def split: option.splits)

lemma diceImg_onload_fields [simp]:
  "rollsLeft (diceImg_onload w h s) = rollsLeft s"
  "numPlayers (diceImg_onload w h s) = numPlayers s"
  "scoreboards (diceImg_onload w h s) = scoreboards s"
  "currentRound (diceImg_onload w h s) = currentRound s"
  "currentPlayer (diceImg_onload w h s) = currentPlayer s"
  "gameMode (diceImg_onload w h s) = gameMode s"
  by (simp_all add: diceImg_onload_def)

lemma keydown_fields [simp]:
  "numPlayers (keydown k s) = numPlayers s"
  "scoreboards (keydown k s) = scoreboards s"
  "currentRound (keydown k s) = currentRound s"
  "currentPlayer (keydown k s) = currentPlayer s"
  "diceValues (keydown k s) = diceValues s"
  "diceKept (keydown k s) = diceKept s"
  by (simp_all add: keydown_def animateCupShake_def)

lemma keydown_gameOver: "gameMode (keydown k s) = gameOver \<longleftrightarrow> gameMode s = gameOver"
  by (auto simp: keydown_def animateCupShake_def)

lemma keydown_rollsLeft:
  "rollsLeft (keydown k s) =
     (if gameMode s = rolling \<and> \<not> isAnimating s \<and> (k = ''r'' \<or> k = ''R'') \<and> rollsLeft s > 0
      then rollsLeft s - 1 else rollsLeft s)"
  by (simp add: keydown_def animateCupShake_def)

lemma nextPlayerOrRound_rollsLeft:
  "0 \<le> rollsLeft s \<and> rollsLeft s \<le> 2 \<Longrightarrow>
   0 \<le> rollsLeft (nextPlayerOrRound s) \<and> rollsLeft (nextPlayerOrRound s) \<le> 2"
  by (simp add: nextPlayerOrRound_cases Let_def)

lemma applyScoreToCategory_fields:
  assumes "applyScoreToCategory cat vals p fz s = Inr t"
  shows "rollsLeft t = rollsLeft s" "numPlayers t = numPlayers s"
    "length (scoreboards t) = length (scoreboards s)"
    "currentRound t = currentRound s" "currentPlayer t = currentPlayer s"
    "gameMode t = gameMode s" "random t = random s"
  using assms by (auto simp: applyScoreToCategory_def Let_def split: if_splits)

lemma dispatch_rollsLeft:
  assumes "0 \<le> rollsLeft s \<and> rollsLeft s \<le> 2"
  shows "0 \<le> rollsLeft (dispatch e s) \<and> rollsLeft (dispatch e s) \<le> 2"
proof (cases e)
  case (Keydown k)
  with assms show ?thesis by (simp add: keydown_rollsLeft)
next
  case (SelectScoreCategory cat fz)
  show ?thesis
  proof (cases "applyScoreToCategory cat (diceValues s) (currentPlayer s) fz s")
    case (Inl err)
    with SelectScoreCategory assms show ?thesis by (simp add: selectScoreCategory_def)
  next
    case (Inr t)
    then have "rollsLeft t = rollsLeft s" by (rule applyScoreToCategory_fields)
    with assms have "0 \<le> rollsLeft (nextPlayerOrRound t) \<and> rollsLeft (nextPlayerOrRound t) \<le> 2"
      by (intro nextPlayerOrRound_rollsLeft) simp
    with SelectScoreCategory Inr show ?thesis by (simp add: selectScoreCategory_def)
  qed
qed (use assms in \<open>simp_all add: setNumberOfPlayers_def restartGame_def\<close>)

lemma run_rollsLeft:
  "0 \<le> rollsLeft s \<and> rollsLeft s \<le> 2 \<Longrightarrow>
   0 \<le> rollsLeft (run es s) \<and> rollsLeft (run es s) \<le> 2"
  unfolding run_def
proof (induction es arbitrary: s)
  case Nil
  then show ?case by simp
next
  case (Cons e es)
  from Cons.prems have "0 \<le> rollsLeft (dispatch e s) \<and> rollsLeft (dispatch e s) \<le> 2"
    by (rule dispatch_rollsLeft)
  then show ?case using Cons.IH by simp
qed

lemma one_player_game_mode:
  "gameMode one_player_game = rolling" "\<not> isAnimating one_player_game"
  "rollsLeft one_player_game = 2"
  by (simp_all add: one_player_game_def setNumberOfPlayers_def initial_def)

text \<open>
  Claim C5. A request to roll again (the key r or R) leaves the whole state as it is
  when no rolls are left or when the animation of a roll is running, and so does a call
  of \<^verbatim>\<open>animateCupShake\<close> during an animation. Every request that is accepted takes
  exactly one from the rolls left. Whatever events occur after the script has been
  loaded, the rolls left stay between 0 and 2.
\<close>

theorem reroll_guard:
  shows "(rollsLeft s \<le> 0 \<or> isAnimating s \<longrightarrow> keydown ''r'' s = s \<and> keydown ''R'' s = s)
       \<and> (isAnimating s \<longrightarrow> animateCupShake s = s)
       \<and> (gameMode s = rolling \<and> \<not> isAnimating s \<and> 0 < rollsLeft s \<longrightarrow>
             rollsLeft (keydown ''r'' s) = rollsLeft s - 1
           \<and> rollsLeft (keydown ''R'' s) = rollsLeft s - 1
           \<and> isAnimating (keydown ''r'' s) \<and> isAnimating (keydown ''R'' s))
       \<and> (rollsLeft (keydown e_key s) = rollsLeft s \<or> rollsLeft (keydown e_key s) = rollsLeft s - 1)
       \<and> 0 \<le> rollsLeft (run es (initial rnd)) \<and> rollsLeft (run es (initial rnd)) \<le> 2"
proof -
  have "0 \<le> rollsLeft (initial rnd) \<and> rollsLeft (initial rnd) \<le> 2"
    by (simp add: initial_def MAX_ROLLS_PER_TURN_def)
  then have "0 \<le> rollsLeft (run es (initial rnd)) \<and> rollsLeft (run es (initial rnd)) \<le> 2"
    by (rule run_rollsLeft)
  then show ?thesis
    by (simp add: keydown_rollsLeft) (simp add: keydown_def animateCupShake_def)
qed

theorem reroll_guard_witness:
  "rollsLeft (keydown ''r'' one_player_game) = 1
   \<and> isAnimating (keydown ''r'' one_player_game)
   \<and> keydown ''r'' (keydown ''r'' one_player_game) = keydown ''r'' one_player_game
   \<and> 0 \<le> rollsLeft (run [SetNumberOfPlayers 1, Keydown ''r''] (initial half_draws))"
proof -
  from reroll_guard [of one_player_game "''r''" "[SetNumberOfPlayers 1, Keydown ''r'']" half_draws]
  have a: "rollsLeft (keydown ''r'' one_player_game) = 1 \<and> isAnimating (keydown ''r'' one_player_game)
      \<and> 0 \<le> rollsLeft (run [SetNumberOfPlayers 1, Keydown ''r''] (initial half_draws))"
    by (simp add: one_player_game_mode)
  with reroll_guard [of "keydown ''r'' one_player_game" "''r''" "[]" half_draws]
  show ?thesis by simp
qed

subsection \<open>An accepted request runs to its end\<close>

text \<open>
  While the animation runs, keys and mouse presses change nothing; the 51st frame rolls
  the dice that are not kept and the 66th ends the animation.
\<close>

lemma frames_Cons: "frames (e # es) = (if is_frame e then 1 else 0) + frames es"
  by (simp add: frames_def)

lemma run_Cons: "run (e # es) s = run es (dispatch e s)"
  by (simp add: run_def)

lemma idle_while_animating:
  assumes "rolling_screen e" "\<not> is_frame e" "isAnimating u"
  shows "isAnimating (dispatch e u) \<and> awaited (dispatch e u) = awaited u
       \<and> rollsLeft (dispatch e u) = rollsLeft u \<and> diceKept (dispatch e u) = diceKept u
       \<and> gameMode (dispatch e u) = gameMode u \<and> diceValues (dispatch e u) = diceValues u
       \<and> random (dispatch e u) = random u"
  using assms by (cases e) (simp_all add: keydown_def mousedown_def diceImg_onload_def)

lemma frame_while_animating:
  assumes "isAnimating u" "awaited u < 65"
  shows "isAnimating (animationFrame u) \<and> awaited (animationFrame u) = awaited u + 1
       \<and> rollsLeft (animationFrame u) = rollsLeft u \<and> diceKept (animationFrame u) = diceKept u
       \<and> gameMode (animationFrame u) = gameMode u
       \<and> (if awaited u + 1 = 51
           then diceValues (animationFrame u) = diceValues (rollDice u)
           else diceValues (animationFrame u) = diceValues u
              \<and> random (animationFrame u) = random u)"
proof -
  have "diceValues (rollDice (u\<lparr>awaited := k\<rparr>)) = diceValues (rollDice u)" for k
  proof -
    have "diceValues (fold rollDie idxs (v\<lparr>awaited := k\<rparr>)) = diceValues (fold rollDie idxs v)
        \<and> diceKept (fold rollDie idxs (v\<lparr>awaited := k\<rparr>)) = diceKept (fold rollDie idxs v)
        \<and> random (fold rollDie idxs (v\<lparr>awaited := k\<rparr>)) = random (fold rollDie idxs v)"
      for idxs v
    proof (induction idxs arbitrary: v)
      case Nil
      show ?case by simp
    next
      case (Cons i idxs)
      have "rollDie i (v\<lparr>awaited := k\<rparr>) = (rollDie i v)\<lparr>awaited := k\<rparr>"
        by (simp add: rollDie_def Math_random_def)
      then show ?case using Cons.IH [of "rollDie i v"] by simp
    qed
    then show ?thesis by (simp add: rollDice_def)
  qed
  then show ?thesis
    using assms
    by (simp add: animationFrame_def Let_def stepsIn_def shakeFrames_def stepsOut_def)
qed

lemma animationFrame_length [simp]:
  "length (diceValues (animationFrame u)) = length (diceValues u)"
  by (simp add: animationFrame_def Let_def)

lemma animationFrame_draws:
  "unit_draws (random u) \<Longrightarrow> unit_draws (random (animationFrame u))"
  by (simp add: animationFrame_def Let_def rollDice_draws)

lemma animation_progress:
  assumes "list_all rolling_screen es" "isAnimating u" "awaited u + frames es \<le> 65"
    "unit_draws (random u)" "length (diceValues u) = 5" "length (diceKept u) = 5"
  shows "isAnimating (run es u) \<and> awaited (run es u) = awaited u + frames es
       \<and> rollsLeft (run es u) = rollsLeft u \<and> diceKept (run es u) = diceKept u
       \<and> gameMode (run es u) = gameMode u
       \<and> unit_draws (random (run es u)) \<and> length (diceValues (run es u)) = 5
       \<and> (if awaited u < 51 \<and> 51 \<le> awaited u + frames es
           then \<forall>j<5. if diceKept u ! j then diceValues (run es u) ! j = diceValues u ! j
                       else 1 \<le> diceValues (run es u) ! j \<and> diceValues (run es u) ! j \<le> 6
           else diceValues (run es u) = diceValues u)"
  using assms
proof (induction es arbitrary: u)
  case Nil
  then show ?case by (simp add: run_def frames_def)
next
  case (Cons e es)
  have rest: "list_all rolling_screen es" and e: "rolling_screen e"
    using Cons.prems(1) by simp_all
  let ?u = "dispatch e u"
  show ?case
  proof (cases "is_frame e")
    case False
    from idle_while_animating [OF e False Cons.prems(2)]
    have same: "isAnimating ?u" "awaited ?u = awaited u" "rollsLeft ?u = rollsLeft u"
      "diceKept ?u = diceKept u" "gameMode ?u = gameMode u" "diceValues ?u = diceValues u"
      "random ?u = random u"
      by simp_all
    have fr: "frames (e # es) = frames es" using False by (simp add: frames_Cons)
    have "awaited ?u + frames es \<le> 65" using Cons.prems(3) same fr by simp
    from Cons.IH [OF rest same(1) this] Cons.prems(4,5,6) same
    show ?thesis unfolding run_Cons fr by simp
  next
    case True
    then have ef: "e = AnimationFrame" by (cases e) simp_all
    have fr: "frames (e # es) = 1 + frames es" using True by (simp add: frames_Cons)
    have lt: "awaited u < 65" using Cons.prems(3) fr by simp
    have u: "?u = animationFrame u" by (simp add: ef)
    note f = frame_while_animating [OF Cons.prems(2) lt, folded u]
    have bound: "awaited ?u + frames es \<le> 65" using Cons.prems(3) fr f by simp
    have draws: "unit_draws (random ?u)"
      unfolding u using Cons.prems(4) by (rule animationFrame_draws)
    have len: "length (diceValues ?u) = 5" "length (diceKept ?u) = 5"
      using Cons.prems(5,6) f by (simp_all add: u)
    note IH = Cons.IH [OF rest _ bound draws len]
    show ?thesis
    proof (cases "awaited u + 1 = 51")
      case True
      with f have dv: "diceValues ?u = diceValues (rollDice u)" by simp
      have aw: "awaited ?u = 51" using f True by simp
      from IH f aw have after: "diceValues (run es ?u) = diceValues ?u" by simp
      have roll: "\<forall>j<5. if diceKept u ! j then diceValues (rollDice u) ! j = diceValues u ! j
                       else 1 \<le> diceValues (rollDice u) ! j \<and> diceValues (rollDice u) ! j \<le> 6"
        using rollDice_nth [OF Cons.prems(4,5,6)] by blast
      from IH f True roll show ?thesis
        unfolding run_Cons fr after dv by simp
    next
      case False
      with f have dv: "diceValues ?u = diceValues u" by simp
      from IH f False show ?thesis
        unfolding run_Cons fr by (simp add: dv)
    qed
  qed
qed

lemma accepted_reroll_completes:
  assumes "gameMode s = rolling" "\<not> isAnimating s" "0 < rollsLeft s"
    and "unit_draws (random s)" "length (diceValues s) = 5" "length (diceKept s) = 5"
    and "list_all rolling_screen es" "frames es = 65"
  shows "\<not> isAnimating (run (Keydown ''r'' # es @ [AnimationFrame]) s)
       \<and> rollsLeft (run (Keydown ''r'' # es @ [AnimationFrame]) s) = rollsLeft s - 1
       \<and> diceKept (run (Keydown ''r'' # es @ [AnimationFrame]) s) = diceKept s
       \<and> gameMode (run (Keydown ''r'' # es @ [AnimationFrame]) s) = rolling
       \<and> (\<forall>j<5. if diceKept s ! j
                  then diceValues (run (Keydown ''r'' # es @ [AnimationFrame]) s) ! j = diceValues s ! j
                  else 1 \<le> diceValues (run (Keydown ''r'' # es @ [AnimationFrame]) s) ! j
                     \<and> diceValues (run (Keydown ''r'' # es @ [AnimationFrame]) s) ! j \<le> 6)"
proof -
  let ?u = "keydown ''r'' s"
  have u: "isAnimating ?u" "awaited ?u = 0" "rollsLeft ?u = rollsLeft s - 1"
    "gameMode ?u = rolling" "random ?u = random s"
    using assms(1,2,3) by (simp_all add: keydown_def animateCupShake_def)
  have uf: "diceValues ?u = diceValues s" "diceKept ?u = diceKept s" by simp_all
  have b: "awaited ?u + frames es \<le> 65" using u assms(8) by simp
  have d: "unit_draws (random ?u)" using u assms(4) by simp
  have l: "length (diceValues ?u) = 5" "length (diceKept ?u) = 5" using assms(5,6) by simp_all
  let ?v = "run es ?u"
  from animation_progress [OF assms(7) u(1) b d l] u uf assms(8)
  have v: "isAnimating ?v" "awaited ?v = 65" "rollsLeft ?v = rollsLeft s - 1"
    "diceKept ?v = diceKept s" "gameMode ?v = rolling"
    "\<forall>j<5. if diceKept s ! j then diceValues ?v ! j = diceValues s ! j
            else 1 \<le> diceValues ?v ! j \<and> diceValues ?v ! j \<le> 6"
    by simp_all
  have last: "animationFrame ?v = ?v\<lparr>awaited := 66, isAnimating := False\<rparr>"
    using v(1,2) by (simp add: animationFrame_def Let_def stepsIn_def shakeFrames_def stepsOut_def)
  have "run (Keydown ''r'' # es @ [AnimationFrame]) s = animationFrame ?v"
    by (simp add: run_def)
  with last v show ?thesis by simp
qed

section \<open>The course of a game\<close>

lemma commits_Cons: "commits (e # es) = (if is_commit e then 1 else 0) + commits es"
  by (simp add: commits_def)

lemma advance_index:
  assumes "0 < N"
  shows "(if k mod N + 1 \<ge> N then 0 else k mod N + 1) = Suc k mod N"
    and "(if k mod N + 1 \<ge> N then 1 + k div N + 1 else 1 + k div N) = 1 + Suc k div N"
proof -
  have lt: "k mod N < N" using assms by simp
  show "(if k mod N + 1 \<ge> N then 0 else k mod N + 1) = Suc k mod N"
    using lt by (auto simp: mod_Suc)
  show "(if k mod N + 1 \<ge> N then 1 + k div N + 1 else 1 + k div N) = 1 + Suc k div N"
    using lt by (auto simp: div_Suc mod_Suc)
qed

lemma round_over: "0 < N \<Longrightarrow> 13 < 1 + k div N \<longleftrightarrow> 13 * N \<le> (k::nat)"
  by (simp add: less_eq_div_iff_mult_less_eq Suc_le_eq [symmetric] del: Suc_le_eq)

lemma select_progress:
  assumes N: "0 < N" and np: "numPlayers s = N" and sb: "length (scoreboards s) = N"
    and cp: "currentPlayer s = k mod N" and cr: "currentRound s = 1 + k div N"
  shows "\<exists>t. selectScoreCategory cat fz s = Inr t \<and> numPlayers t = N
            \<and> length (scoreboards t) = N \<and> currentPlayer t = Suc k mod N
            \<and> currentRound t = 1 + Suc k div N
            \<and> (gameMode t = gameOver \<longleftrightarrow> 13 * N \<le> Suc k)"
proof -
  have "currentPlayer s < length (scoreboards s)" using N cp sb by simp
  then have "\<exists>u. applyScoreToCategory cat (diceValues s) (currentPlayer s) fz s = Inr u"
    by (cases fz) (simp_all add: applyScoreToCategory_def Let_def)
  then obtain u where u: "applyScoreToCategory cat (diceValues s) (currentPlayer s) fz s = Inr u"
    by blast
  note f = applyScoreToCategory_fields [OF u]
  let ?t = "nextPlayerOrRound u"
  have sel: "selectScoreCategory cat fz s = Inr ?t"
    by (simp add: selectScoreCategory_def u)
  have p: "currentPlayer ?t = Suc k mod N"
    using advance_index(1) [OF N, of k] f np cp
    by (auto simp: nextPlayerOrRound_cases Let_def split: if_splits)
  have r: "currentRound ?t = 1 + Suc k div N"
    using advance_index(2) [OF N, of k] f np cp cr
    by (auto simp: nextPlayerOrRound_cases Let_def split: if_splits)
  have g: "gameMode ?t = gameOver \<longleftrightarrow> 13 < currentRound ?t"
    by (simp add: nextPlayerOrRound_cases Let_def)
  have "numPlayers ?t = N \<and> length (scoreboards ?t) = N"
    using f np sb by (simp add: nextPlayerOrRound_cases Let_def)
  with sel p r g round_over [OF N, of "Suc k"] show ?thesis by simp
qed

lemma run_progress:
  assumes "0 < N" "list_all same_game es" "numPlayers s = N" "length (scoreboards s) = N"
    "currentPlayer s = k mod N" "currentRound s = 1 + k div N"
    "gameMode s = gameOver \<longleftrightarrow> 13 * N \<le> k"
  shows "currentPlayer (run es s) = (k + commits es) mod N
       \<and> currentRound (run es s) = 1 + (k + commits es) div N
       \<and> (gameMode (run es s) = gameOver \<longleftrightarrow> 13 * N \<le> k + commits es)"
  using assms unfolding run_def
proof (induction es arbitrary: s k)
  case Nil
  then show ?case by (simp add: commits_def)
next
  case (Cons e es)
  have rest: "list_all same_game es" using Cons.prems(2) by simp
  show ?case
  proof (cases "is_commit e")
    case True
    then obtain cat fz where e: "e = SelectScoreCategory cat fz" by (cases e) simp_all
    from select_progress [OF Cons.prems(1,3,4,5,6), of cat fz]
    obtain t where t: "selectScoreCategory cat fz s = Inr t" "numPlayers t = N"
      "length (scoreboards t) = N" "currentPlayer t = Suc k mod N"
      "currentRound t = 1 + Suc k div N" "gameMode t = gameOver \<longleftrightarrow> 13 * N \<le> Suc k"
      by blast
    have d: "dispatch e s = t" by (simp add: e t(1))
    from Cons.IH [OF Cons.prems(1) rest t(2-6)] d True
    show ?thesis by (simp add: commits_Cons)
  next
    case False
    let ?t = "dispatch e s"
    have same: "numPlayers ?t = numPlayers s \<and> length (scoreboards ?t) = length (scoreboards s)
        \<and> currentPlayer ?t = currentPlayer s \<and> currentRound ?t = currentRound s
        \<and> (gameMode ?t = gameOver \<longleftrightarrow> gameMode s = gameOver)"
      using False Cons.prems(2) by (cases e) (simp_all add: keydown_gameOver)
    have "currentPlayer (fold dispatch es ?t) = (k + commits es) mod N
       \<and> currentRound (fold dispatch es ?t) = 1 + (k + commits es) div N
       \<and> (gameMode (fold dispatch es ?t) = gameOver \<longleftrightarrow> 13 * N \<le> k + commits es)"
      using same Cons.prems by (intro Cons.IH [OF Cons.prems(1) rest]) simp_all
    with False show ?thesis by (simp add: commits_Cons)
  qed
qed

text \<open>
  Claim C2. For every number of players \<open>N\<close> from 1 to 9 and every sequence of events of
  the game started with \<open>N\<close> players, the game is over exactly when \<open>N * 13\<close> categories
  have been committed, and not before; after \<open>k\<close> commits the current player is
  \<open>k mod N\<close> and the round is \<open>1 + k div N\<close>. One advance adds one to the player index,
  sets it back to 0 and adds one to the round when the index has passed \<open>N - 1\<close>, and
  ends the game exactly when the round is then greater than 13.
\<close>

theorem game_over_after_all_commits:
  assumes "1 \<le> N" "N \<le> 9" "list_all same_game es"
  shows "(gameMode (run es (setNumberOfPlayers N s)) = gameOver \<longleftrightarrow> N * 13 \<le> commits es)
       \<and> currentPlayer (run es (setNumberOfPlayers N s)) = commits es mod N
       \<and> currentRound (run es (setNumberOfPlayers N s)) = 1 + commits es div N
       \<and> currentPlayer (nextPlayerOrRound s) =
           (if currentPlayer s + 1 \<ge> numPlayers s then 0 else currentPlayer s + 1)
       \<and> currentRound (nextPlayerOrRound s) =
           (if currentPlayer s + 1 \<ge> numPlayers s then currentRound s + 1 else currentRound s)
       \<and> (gameMode (nextPlayerOrRound s) = gameOver \<longleftrightarrow> currentRound (nextPlayerOrRound s) > 13)"
proof -
  let ?s = "setNumberOfPlayers N s"
  have N: "0 < N" using assms(1) by simp
  have "currentPlayer (run es ?s) = (0 + commits es) mod N
       \<and> currentRound (run es ?s) = 1 + (0 + commits es) div N
       \<and> (gameMode (run es ?s) = gameOver \<longleftrightarrow> 13 * N \<le> 0 + commits es)"
    using N by (intro run_progress [OF N assms(3)]) (simp_all add: setNumberOfPlayers_def initScoreboards_def)
  then show ?thesis
    by (simp add: nextPlayerOrRound_cases Let_def mult.commute)
qed

theorem game_over_after_all_commits_witness:
  "gameMode (run (concat (map (\<lambda>cat. [Keydown ''e'', SelectScoreCategory cat False,
                                         Keydown ''e'', SelectScoreCategory cat True]) catMap))
                 (setNumberOfPlayers 2 (initial half_draws))) = gameOver
   \<and> gameMode (run (butlast (concat (map (\<lambda>cat. [Keydown ''e'', SelectScoreCategory cat False,
                                         Keydown ''e'', SelectScoreCategory cat True]) catMap)))
                 (setNumberOfPlayers 2 (initial half_draws))) \<noteq> gameOver"
proof -
  let ?es = "concat (map (\<lambda>cat. [Keydown ''e'', SelectScoreCategory cat False,
                                   Keydown ''e'', SelectScoreCategory cat True]) catMap)"
  have a: "list_all same_game ?es" by (simp add: catMap_def)
  have b: "list_all same_game (butlast ?es)" by (simp add: catMap_def)
  have c: "commits ?es = 26" by (simp add: catMap_def commits_def)
  have d: "commits (butlast ?es) = 25" by (simp add: catMap_def commits_def)
  have n: "(1::nat) \<le> 2" "(2::nat) \<le> 9" by simp_all
  from game_over_after_all_commits [OF n a, of "initial half_draws"]
       game_over_after_all_commits [OF n b, of "initial half_draws"] c d
  show ?thesis by simp
qed

section \<open>Committing a score\<close>

lemma overlayButtons_unset:
  "(cat, fz) \<in> set (overlayButtons sb) \<Longrightarrow> sb cat = None"
  by (auto simp: overlayButtons_def split: if_splits)

lemma nextPlayerOrRound_scoreboards [simp]:
  "scoreboards (nextPlayerOrRound s) = scoreboards s"
  by (simp add: nextPlayerOrRound_cases Let_def)

lemma upt_5: "[0..<5] = [0, 1, 2, 3, 4]"
  by (simp add: upt_rec)

lemma ex_start_dice: "diceValues one_player_game = [4, 4, 4, 4, 4]"
  by (simp add: one_player_game_def setNumberOfPlayers_def beginPlayerTurn_def rollDice_def rollDie_def NUM_DICE_def
      upt_5 js_nth_def Math_random_def initial_def half_face)

lemma ex_start_boards: "scoreboards one_player_game = [\<lambda>cat. None]"
  by (simp add: one_player_game_def setNumberOfPlayers_def initScoreboards_def)

lemma ex_start_player: "currentPlayer one_player_game = 0" "numPlayers one_player_game = 1"
    "currentRound one_player_game = 1"
  by (simp_all add: one_player_game_def setNumberOfPlayers_def)

lemma score_fours: "calculatePossibleScores [4, 4, 4, 4, 4] fours = 20"
  by (simp add: calculatePossibleScores_def Let_def sumIfMatch_def)

text \<open>
  Claim C1, as stated, fails. In the one-player example the player takes the score for
  the fours, 20, and the same category is then committed again, forced to zero:
  \<^verbatim>\<open>selectScoreCategory\<close> does not throw either time, and the entry that was 20 is 0
  afterwards.
\<close>

theorem recommit_overwrites:
  "\<not> isl (selectScoreCategory fours False one_player_game)
   \<and> (scoreboards (projr (selectScoreCategory fours False
          one_player_game)) ! 0) fours = Some 20
   \<and> \<not> isl (selectScoreCategory fours True (projr (selectScoreCategory fours False
          one_player_game)))
   \<and> (scoreboards (projr (selectScoreCategory fours True (projr (selectScoreCategory fours False
          one_player_game)))) ! 0) fours = Some 0"
  by (simp add: selectScoreCategory_def applyScoreToCategory_def Let_def ex_start_dice
      ex_start_boards ex_start_player score_fours nextPlayerOrRound_cases)

lemma overlayButtons_iff:
  "(c, z) \<in> set (overlayButtons sb) \<longleftrightarrow> sb c = None"
proof -
  have "c \<in> set catMap" by (cases c) (simp_all add: catMap_def)
  then show ?thesis by (cases z) (auto simp: overlayButtons_def)
qed

text \<open>
  Claim C1, amended. A commit is never rejected because the category is already set.
  For every player that has a scoreboard, \<^verbatim>\<open>applyScoreToCategory\<close> returns without an
  error and sets the entry of the category to 0 when forced to zero and to the computed
  score otherwise, whether or not the entry was set before, and changes nothing else;
  \<^verbatim>\<open>selectScoreCategory\<close> does this for the current player and then advances. So a
  second commit overwrites the first. The only error is the \<^verbatim>\<open>TypeError\<close> for a player
  index without a scoreboard. What keeps a set entry from being written again is the
  selection overlay: it renders buttons exactly for the categories of the current
  player that are not set, and a commit made through one of these buttons sets the
  entry of that category, which was not set, and leaves every entry that was set, of
  every player, at its value.
\<close>

theorem commit_unchecked_overlay_guarded:
  "(playerIdx < length (scoreboards s) \<longrightarrow>
      applyScoreToCategory cat vals playerIdx forceZero s =
        Inr (s\<lparr>scoreboards := (scoreboards s)
               [playerIdx := (scoreboards s ! playerIdx)
                  (cat := Some (if forceZero then 0 else calculatePossibleScores vals cat))]\<rparr>))
   \<and> (\<not> playerIdx < length (scoreboards s) \<longrightarrow>
        applyScoreToCategory cat vals playerIdx forceZero s = Inl TypeError)
   \<and> (currentPlayer s < length (scoreboards s) \<longrightarrow>
        selectScoreCategory cat forceZero s =
          Inr (nextPlayerOrRound (s\<lparr>scoreboards := (scoreboards s)
                 [currentPlayer s := (scoreboards s ! currentPlayer s)
                    (cat := Some (if forceZero then 0
                                  else calculatePossibleScores (diceValues s) cat))]\<rparr>))
      \<and> scoreboards (projr (selectScoreCategory cat forceZero s)) =
          (scoreboards s)
            [currentPlayer s := (scoreboards s ! currentPlayer s)
               (cat := Some (if forceZero then 0
                             else calculatePossibleScores (diceValues s) cat))])
   \<and> (\<not> currentPlayer s < length (scoreboards s) \<longrightarrow>
        selectScoreCategory cat forceZero s = Inl TypeError)
   \<and> (currentPlayer s < length (scoreboards s) \<longrightarrow>
        openScoreSelectionOverlay s = Inr (overlayButtons (scoreboards s ! currentPlayer s)))
   \<and> ((c, z) \<in> set (overlayButtons sb) \<longleftrightarrow> sb c = None)
   \<and> (openScoreSelectionOverlay s = Inr buttons \<and> (cat, forceZero) \<in> set buttons \<longrightarrow>
        (scoreboards s ! currentPlayer s) cat = None
      \<and> (\<exists>t. selectScoreCategory cat forceZero s = Inr t
            \<and> (scoreboards t ! currentPlayer s) cat =
                Some (if forceZero then 0 else calculatePossibleScores (diceValues s) cat)
            \<and> length (scoreboards t) = length (scoreboards s)
            \<and> (\<forall>p c v. p < length (scoreboards s) \<longrightarrow> (scoreboards s ! p) c = Some v
                   \<longrightarrow> (scoreboards t ! p) c = Some v)))"
proof -
  let ?w = "\<lambda>vs. if forceZero then 0 else calculatePossibleScores vs cat"
  let ?u = "\<lambda>p vs. s\<lparr>scoreboards := (scoreboards s)[p := (scoreboards s ! p)(cat := Some (?w vs))]\<rparr>"
  have A: "applyScoreToCategory cat vs p forceZero s = Inr (?u p vs)"
    if "p < length (scoreboards s)" for p vs
    using that by (simp add: applyScoreToCategory_def Let_def)
  have B: "applyScoreToCategory cat vals playerIdx forceZero s = Inl TypeError"
    if "\<not> playerIdx < length (scoreboards s)"
    using that by (simp add: applyScoreToCategory_def)
  let ?p = "currentPlayer s"
  have C: "selectScoreCategory cat forceZero s = Inr (nextPlayerOrRound (?u ?p (diceValues s)))"
    if "?p < length (scoreboards s)"
    by (simp add: selectScoreCategory_def A [OF that])
  have E: "(scoreboards s ! ?p) cat = None
      \<and> (\<exists>t. selectScoreCategory cat forceZero s = Inr t
            \<and> (scoreboards t ! ?p) cat = Some (?w (diceValues s))
            \<and> length (scoreboards t) = length (scoreboards s)
            \<and> (\<forall>p c v. p < length (scoreboards s) \<longrightarrow> (scoreboards s ! p) c = Some v
                   \<longrightarrow> (scoreboards t ! p) c = Some v))"
    if o: "openScoreSelectionOverlay s = Inr buttons" and m: "(cat, forceZero) \<in> set buttons"
  proof -
    from o have lt: "?p < length (scoreboards s)"
      and b: "buttons = overlayButtons (scoreboards s ! ?p)"
      by (auto simp: openScoreSelectionOverlay_def split: if_splits)
    from m b have unset: "(scoreboards s ! ?p) cat = None"
      by (simp add: overlayButtons_unset)
    have keep: "(scoreboards (?u ?p (diceValues s)) ! p) c = Some v"
      if "p < length (scoreboards s)" "(scoreboards s ! p) c = Some v" for p c v
      using that unset by (cases "p = ?p"; cases "c = cat") (simp_all add: nth_list_update)
    have new: "(scoreboards (?u ?p (diceValues s)) ! ?p) cat = Some (?w (diceValues s))"
      using lt by simp
    show ?thesis
      using C [OF lt] unset new keep
      by (intro conjI exI [of _ "nextPlayerOrRound (?u ?p (diceValues s))"]) simp_all
  qed
  have C': "scoreboards (projr (selectScoreCategory cat forceZero s)) =
          scoreboards (?u ?p (diceValues s))"
    if "?p < length (scoreboards s)"
    by (simp add: C [OF that])
  have F: "selectScoreCategory cat forceZero s = Inl TypeError"
    if "\<not> ?p < length (scoreboards s)"
    using that by (simp add: selectScoreCategory_def applyScoreToCategory_def)
  have G: "openScoreSelectionOverlay s = Inr (overlayButtons (scoreboards s ! ?p))"
    if "?p < length (scoreboards s)"
    using that by (simp add: openScoreSelectionOverlay_def)
  show ?thesis
    using A [of playerIdx vals] B C C' E F G overlayButtons_iff [of c z sb] by simp
qed

theorem commit_unchecked_overlay_guarded_witness:
  "applyScoreToCategory fours [4, 4, 4, 4, 4] 0 True
       (projr (selectScoreCategory fours False one_player_game))
     = Inr ((projr (selectScoreCategory fours False one_player_game))
              \<lparr>scoreboards := [(\<lambda>cat. None)(fours := Some 0)]\<rparr>)
   \<and> (scoreboards (projr (selectScoreCategory fours False one_player_game)) ! 0) fours = Some 20
   \<and> applyScoreToCategory ones [4, 4, 4, 4, 4] 0 False (initial half_draws) = Inl TypeError
   \<and> selectScoreCategory ones False (initial half_draws) = Inl TypeError
   \<and> openScoreSelectionOverlay one_player_game = Inr (overlayButtons (\<lambda>cat. None))
   \<and> (fours, False) \<in> set (overlayButtons (\<lambda>cat. None))
   \<and> (\<exists>t. selectScoreCategory fours False one_player_game = Inr t
          \<and> (scoreboards t ! 0) fours = Some 20)"
proof -
  let ?s = "one_player_game"
  let ?s1 = "projr (selectScoreCategory fours False one_player_game)"
  have lt: "currentPlayer ?s < length (scoreboards ?s)"
    by (simp add: ex_start_boards ex_start_player)
  from commit_unchecked_overlay_guarded [of 0 ?s fours "[4, 4, 4, 4, 4]" False]
  have s1: "scoreboards ?s1 = [(\<lambda>cat. None)(fours := Some 20)]"
    by (simp add: ex_start_boards ex_start_player ex_start_dice score_fours)
  from commit_unchecked_overlay_guarded [of 0 ?s1 fours "[4, 4, 4, 4, 4]" True]
  have again: "applyScoreToCategory fours [4, 4, 4, 4, 4] 0 True ?s1
      = Inr (?s1\<lparr>scoreboards := [(\<lambda>cat. None)(fours := Some 0)]\<rparr>)"
    by (simp add: s1)
  from commit_unchecked_overlay_guarded [of 0 "initial half_draws" ones "[4, 4, 4, 4, 4]" False]
  have none: "applyScoreToCategory ones [4, 4, 4, 4, 4] 0 False (initial half_draws) = Inl TypeError"
    by (simp add: initial_def)
  from commit_unchecked_overlay_guarded [of 0 "initial half_draws" ones "[4, 4, 4, 4, 4]" False]
  have none': "selectScoreCategory ones False (initial half_draws) = Inl TypeError"
    by (simp add: initial_def)
  have o: "openScoreSelectionOverlay ?s = Inr (overlayButtons (\<lambda>cat. None))"
    by (simp add: openScoreSelectionOverlay_def ex_start_boards ex_start_player)
  from commit_unchecked_overlay_guarded [of 0 ?s fours "[]" False fours False "\<lambda>cat. None"
      "overlayButtons (\<lambda>cat. None)"]
  have m: "(fours, False) \<in> set (overlayButtons (\<lambda>cat. None))"
    and e: "\<exists>t. selectScoreCategory fours False ?s = Inr t
          \<and> (scoreboards t ! currentPlayer ?s) fours
              = Some (calculatePossibleScores (diceValues ?s) fours)"
    using o by auto
  from again s1 none none' o m e show ?thesis
    by (auto simp: ex_start_dice ex_start_player score_fours)
qed

end
